theory Spec2Isabelle
  imports Main "HOL-Library.Word"
begin

unbundle bit_operations_syntax

section \<open>Machine integers\<close>

type_synonym u8 = "8 word"
type_synonym u32 = "32 word"
type_synonym u64 = "64 word"

section \<open>Addresses: \<open>address::mask\<close> (src/address.cc)\<close>

text \<open>
  An address is its 16 bytes in network order (\<open>std::array<uint8_t, 16>\<close>), here a list
  of bytes of length 16. \<open>mask\<close> reads and writes them through a \<open>uint32_t*\<close>, so the
  host's byte order enters twice: in the reinterpreting loads and stores, and in
  \<open>to_network_order\<close>. The flag \<open>little_endian\<close> is the compile-time constant
  \<open>is_little_endian\<close> of the source.
\<close>

definition bit_mask32 :: "int \<Rightarrow> u32" where
  "bit_mask32 bottom_bits =
     (if bottom_bits \<ge> 32 then 0xffffffff else push_bit (nat bottom_bits) 1 - 1)"

definition word_of_bytes :: "bool \<Rightarrow> u8 \<Rightarrow> u8 \<Rightarrow> u8 \<Rightarrow> u8 \<Rightarrow> u32" where
  "word_of_bytes little_endian b0 b1 b2 b3 =
     (if little_endian
      then ucast b0 OR push_bit 8 (ucast b1) OR push_bit 16 (ucast b2) OR push_bit 24 (ucast b3)
      else ucast b3 OR push_bit 8 (ucast b2) OR push_bit 16 (ucast b1) OR push_bit 24 (ucast b0))"

text \<open>The four bytes of a word, lowest first, read back in the opposite order.\<close>

definition byte_swap32 :: "u32 \<Rightarrow> u32" where
  "byte_swap32 x =
     word_of_bytes False (ucast x) (ucast (drop_bit 8 x)) (ucast (drop_bit 16 x))
       (ucast (drop_bit 24 x))"

text \<open>
  \<open>caf::detail::to_network_order\<close> belongs to the actor library, not to this repository:
  it swaps the bytes on a little-endian host and is the identity on a big-endian one.
\<close>

definition to_network_order :: "bool \<Rightarrow> u32 \<Rightarrow> u32" where
  "to_network_order little_endian x = (if little_endian then byte_swap32 x else x)"

text \<open>\<open>p[i]\<close> for \<open>p = reinterpret_cast<uint32_t*>(&bytes())\<close>: read and write.\<close>

definition load32 :: "bool \<Rightarrow> u8 list \<Rightarrow> nat \<Rightarrow> u32" where
  "load32 little_endian bs i =
     word_of_bytes little_endian (bs ! (4 * i)) (bs ! (4 * i + 1)) (bs ! (4 * i + 2))
       (bs ! (4 * i + 3))"

definition store32 :: "bool \<Rightarrow> u32 \<Rightarrow> u8 list" where
  "store32 little_endian w =
     (let lo = [ucast w, ucast (drop_bit 8 w), ucast (drop_bit 16 w), ucast (drop_bit 24 w)]
      in if little_endian then lo else rev lo)"

text \<open>
  The local array \<open>mask[4]\<close> after the two updates that precede the final loop.
  \<open>std::ldiv\<close> of a non-negative number is \<open>div\<close> and \<open>mod\<close>.
\<close>

definition mask_words :: "bool \<Rightarrow> nat \<Rightarrow> u32 list" where
  "mask_words little_endian top_bits_to_keep =
     (let quot = top_bits_to_keep div 32; rem = top_bits_to_keep mod 32;
          m0 = replicate 4 (0xffffffff :: u32);
          m1 = (if quot < 4
                then m0[quot := to_network_order little_endian
                                  ((m0 ! quot) AND NOT (bit_mask32 (32 - int rem)))]
                else m0)
      in fold (\<lambda>i m. m[i := 0]) [quot + 1 ..< 4] m1)"

text \<open>The final loop \<open>p[i] &= mask[i]\<close> over the four words of the address.\<close>

definition apply_mask :: "bool \<Rightarrow> u32 list \<Rightarrow> u8 list \<Rightarrow> u8 list" where
  "apply_mask little_endian m bytes =
     concat (map (\<lambda>i. store32 little_endian (load32 little_endian bytes i AND (m ! i))) [0 ..< 4])"

text \<open>The result pairs the returned flag with the address bytes after the call.\<close>

definition mask :: "bool \<Rightarrow> u8 \<Rightarrow> u8 list \<Rightarrow> bool \<times> u8 list" where
  "mask little_endian top_bits_to_keep bytes =
     (if top_bits_to_keep > 128 then (False, bytes)
      else (True, apply_mask little_endian (mask_words little_endian (unat top_bits_to_keep)) bytes))"

section \<open>The reliable channel (include/broker/detail/channel.hh)\<close>

text \<open>
  Sequence numbers are \<open>uint64_t\<close>, so they are 64-bit words: \<open>+\<close> and \<open>-\<close> wrap around
  and the comparisons are unsigned.
\<close>

record 'p event =
  seq :: u64
  content :: 'p

subsection \<open>Producer\<close>

record 'h path =
  hdl :: 'h
  offset :: u64
  acked :: u64

text \<open>What the producer hands to its backend for one consumer.\<close>

datatype 'p producer_msg =
    Handshake u64
  | Event "'p event"
  | Retransmit_failed u64

text \<open>
  The calls of \<open>backend_->send\<close>, in order: \<open>Fan_out\<close> is the overload that takes the whole
  path list, \<open>To_consumer\<close> the one that takes a single handle.
\<close>

datatype ('h, 'p) producer_send =
    Fan_out "'h path list" "'p event"
  | To_consumer 'h "'p producer_msg"

record ('h, 'p) producer =
  p_seq :: u64
  p_buf :: "'p event list"
  p_paths :: "'h path list"
  p_sent :: "('h, 'p) producer_send list"

definition new_producer :: "('h, 'p) producer" where
  "new_producer = \<lparr>p_seq = 0, p_buf = [], p_paths = [], p_sent = []\<rparr>"

definition produce :: "'p \<Rightarrow> ('h, 'p) producer \<Rightarrow> ('h, 'p) producer" where
  "produce c p =
     (let s = p_seq p + 1; e = \<lparr>seq = s, content = c\<rparr>
      in p\<lparr>p_seq := s, p_buf := p_buf p @ [e], p_sent := p_sent p @ [Fan_out (p_paths p) e]\<rparr>)"

definition idle :: "('h, 'p) producer \<Rightarrow> bool" where
  "idle p = list_all (\<lambda>x. acked x = p_seq p) (p_paths p)"

definition find_path :: "'h \<Rightarrow> ('h, 'p) producer \<Rightarrow> 'h path option" where
  "find_path h p = find (\<lambda>x. hdl x = h) (p_paths p)"

definition find_event :: "u64 \<Rightarrow> ('h, 'p) producer \<Rightarrow> 'p event option" where
  "find_event s p = find (\<lambda>x. seq x = s) (p_buf p)"

text \<open>The error codes: \<open>enum class ec\<close>, and \<open>consumer_exists\<close> as the channel uses it.\<close>

datatype ec =
    Ec_none | Unspecified | Peer_incompatible | Peer_invalid | Peer_unavailable
  | Peer_disconnect_during_handshake | Peer_timeout | Master_exists | No_such_master
  | No_such_key | Request_timeout | Type_clash | Invalid_data | Backend_failure | Stale_data
  | Cannot_open_file | Cannot_write_file | Invalid_topic_key | End_of_file | Invalid_tag
  | Invalid_status | Consumer_exists

text \<open>\<open>add\<close> returns the error it reports (\<open>None\<close> for \<open>nil\<close>) and the producer afterwards.\<close>

definition add :: "'h \<Rightarrow> ('h, 'p) producer \<Rightarrow> ec option \<times> ('h, 'p) producer" where
  "add h p =
     (if find_path h p \<noteq> None then (Some Consumer_exists, p)
      else let off = p_seq p + 1
           in (None, p\<lparr>p_paths := p_paths p @ [\<lparr>hdl = h, offset = off, acked = p_seq p\<rparr>],
                        p_sent := p_sent p @ [To_consumer h (Handshake off)]\<rparr>))"

text \<open>
  The loop of \<open>handle_ack\<close> over the paths: it stores \<open>s\<close> in the paths of \<open>h\<close> and folds
  the minimum of the other paths into the running value \<open>a\<close> (the local \<open>acked\<close>).
\<close>

fun ack_paths :: "'h \<Rightarrow> u64 \<Rightarrow> 'h path list \<Rightarrow> u64 \<Rightarrow> 'h path list \<times> u64" where
  "ack_paths h s [] a = ([], a)"
| "ack_paths h s (x # xs) a =
     (if hdl x = h
      then (let (ys, a') = ack_paths h s xs a in (x\<lparr>acked := s\<rparr> # ys, a'))
      else (let (ys, a') = ack_paths h s xs (min (acked x) a) in (x # ys, a')))"

definition handle_ack :: "'h \<Rightarrow> u64 \<Rightarrow> ('h, 'p) producer \<Rightarrow> ('h, 'p) producer" where
  "handle_ack h s p =
     (let (ps, a) = ack_paths h s (p_paths p) s
      in p\<lparr>p_paths := ps, p_buf := dropWhile (\<lambda>x. \<not> seq x > a) (p_buf p)\<rparr>)"

text \<open>One round of the resend loop of \<open>handle_nack\<close>.\<close>

definition resend :: "'h \<Rightarrow> u64 \<Rightarrow> ('h, 'p) producer \<Rightarrow> ('h, 'p) producer" where
  "resend h s p =
     (case find_event s p of
        Some e \<Rightarrow> p\<lparr>p_sent := p_sent p @ [To_consumer h (Event e)]\<rparr>
      | None \<Rightarrow> p\<lparr>p_sent := p_sent p @ [To_consumer h (Retransmit_failed s)]\<rparr>)"

text \<open>The message of one round: the buffered event of that number, or the failure notice.\<close>

definition resend_msg :: "('h, 'p) producer \<Rightarrow> 'h \<Rightarrow> u64 \<Rightarrow> ('h, 'p) producer_send" where
  "resend_msg p h s =
     To_consumer h (case find_event s p of Some e \<Rightarrow> Event e | None \<Rightarrow> Retransmit_failed s)"

definition handle_nack :: "'h \<Rightarrow> u64 list \<Rightarrow> ('h, 'p) producer \<Rightarrow> ('h, 'p) producer" where
  "handle_nack h seqs p =
     (case seqs of
        [] \<Rightarrow> p
      | first # _ \<Rightarrow>
          (case find_path h p of
             None \<Rightarrow> p
           | Some pa \<Rightarrow>
               if first = 0 then p\<lparr>p_sent := p_sent p @ [To_consumer h (Handshake (offset pa))]\<rparr>
               else fold (resend h) seqs (handle_ack h (first - 1) p)))"

text \<open>Traces of producer calls, for statements about any sequence of calls.\<close>

datatype ('h, 'p) producer_call =
    Add 'h
  | Produce 'p
  | Handle_ack 'h u64

fun producer_step :: "('h, 'p) producer_call \<Rightarrow> ('h, 'p) producer \<Rightarrow> ('h, 'p) producer" where
  "producer_step (Add h) p = snd (add h p)"
| "producer_step (Produce c) p = produce c p"
| "producer_step (Handle_ack h s) p = handle_ack h s p"

definition run_producer :: "('h, 'p) producer_call list \<Rightarrow> ('h, 'p) producer \<Rightarrow> ('h, 'p) producer" where
  "run_producer calls p = fold producer_step calls p"

text \<open>The events handed out by \<open>produce\<close> so far, read off the send log.\<close>

fun emitted_events :: "('h, 'p) producer_send list \<Rightarrow> 'p event list" where
  "emitted_events [] = []"
| "emitted_events (Fan_out ps e # xs) = e # emitted_events xs"
| "emitted_events (To_consumer h m # xs) = emitted_events xs"

fun produced_payloads :: "('h, 'p) producer_call list \<Rightarrow> 'p list" where
  "produced_payloads [] = []"
| "produced_payloads (Add h # xs) = produced_payloads xs"
| "produced_payloads (Produce c # xs) = c # produced_payloads xs"
| "produced_payloads (Handle_ack h s # xs) = produced_payloads xs"

text \<open>The smallest acknowledged sequence number over a non-empty path list.\<close>

definition min_acked :: "'h path list \<Rightarrow> u64" where
  "min_acked ps = Min (set (map acked ps))"

text \<open>
  Conditions on the acknowledgements of a trace. \<open>acks_bounded\<close>: every value is at most
  the producer's sequence number at that moment. \<open>acks_monotone\<close>: moreover no value is
  below what the paths of that handle have stored already.
\<close>

fun acks_bounded :: "('h, 'p) producer_call list \<Rightarrow> ('h, 'p) producer \<Rightarrow> bool" where
  "acks_bounded [] p = True"
| "acks_bounded (Add h # xs) p = acks_bounded xs (snd (add h p))"
| "acks_bounded (Produce c # xs) p = acks_bounded xs (produce c p)"
| "acks_bounded (Handle_ack h s # xs) p = (s \<le> p_seq p \<and> acks_bounded xs (handle_ack h s p))"

fun acks_monotone :: "('h, 'p) producer_call list \<Rightarrow> ('h, 'p) producer \<Rightarrow> bool" where
  "acks_monotone [] p = True"
| "acks_monotone (Add h # xs) p = acks_monotone xs (snd (add h p))"
| "acks_monotone (Produce c # xs) p = acks_monotone xs (produce c p)"
| "acks_monotone (Handle_ack h s # xs) p =
     (s \<le> p_seq p \<and> list_all (\<lambda>x. hdl x = h \<longrightarrow> acked x \<le> s) (p_paths p)
      \<and> acks_monotone xs (handle_ack h s p))"

text \<open>A fresh producer to which the consumers \<open>hs\<close> were added in turn.\<close>

definition producer_with :: "'h list \<Rightarrow> ('h, 'p) producer" where
  "producer_with hs = fold (\<lambda>h p. snd (add h p)) hs new_producer"

text \<open>
  \<open>buffer_exact\<close>: the retransmission buffer holds exactly the emitted events whose sequence
  number lies above the smallest acknowledged one, in the order of emission.
\<close>

definition buffer_exact :: "('h, 'p) producer \<Rightarrow> bool" where
  "buffer_exact p \<longleftrightarrow>
     p_buf p = filter (\<lambda>e. min_acked (p_paths p) < seq e) (emitted_events (p_sent p))"

text \<open>
  The invariant carried along a trace: there is a path, no path has acknowledged more than
  was produced, the emitted events are numbered 1, 2, \<dots> up to the current sequence number,
  and the buffer is exact.
\<close>

definition producer_inv :: "('h, 'p) producer \<Rightarrow> bool" where
  "producer_inv p \<longleftrightarrow>
     p_paths p \<noteq> []
     \<and> (\<forall>x \<in> set (p_paths p). acked x \<le> p_seq p)
     \<and> map seq (emitted_events (p_sent p)) = map (\<lambda>i. of_nat (Suc i)) [0 ..< unat (p_seq p)]
     \<and> p_buf p = filter (\<lambda>e. min_acked (p_paths p) < seq e) (emitted_events (p_sent p))"

subsection \<open>Consumer\<close>

text \<open>What the consumer hands to its backend for the producer.\<close>

datatype consumer_msg =
    Cumulative_ack u64
  | Nack "u64 list"

text \<open>
  \<open>consumed\<close> logs the calls of \<open>backend_->consume\<close>, \<open>c_sent\<close> those of \<open>backend_->send\<close>.
  The backend receives the payload only; the log keeps the whole event, so that the
  sequence number under which a payload was delivered can be read off.
\<close>

record 'p consumer =
  next_seq :: u64
  c_buf :: "'p event list"
  tick_count :: u64
  last_tick_seq :: u64
  idle_ticks :: u8
  ack_interval :: u8
  nack_timeout :: u8
  consumed :: "'p event list"
  c_sent :: "consumer_msg list"

definition new_consumer :: "'p consumer" where
  "new_consumer =
     \<lparr>next_seq = 0, c_buf = [], tick_count = 0, last_tick_seq = 0, idle_ticks = 0,
      ack_interval = 1, nack_timeout = 1, consumed = [], c_sent = []\<rparr>"

text \<open>
  The loop of \<open>try_consume_buffer\<close>: from the counter \<open>n\<close> and the buffer it yields the
  counter afterwards, the events consumed and the events that stay.
\<close>

fun drain :: "u64 \<Rightarrow> 'p event list \<Rightarrow> u64 \<times> 'p event list \<times> 'p event list" where
  "drain n [] = (n, [], [])"
| "drain n (e # es) =
     (if seq e = n
      then (let (n', cs, rest) = drain (n + 1) es in (n', e # cs, rest))
      else (n, [], e # es))"

definition try_consume_buffer :: "'p consumer \<Rightarrow> 'p consumer" where
  "try_consume_buffer c =
     (let (n, cs, rest) = drain (next_seq c) (c_buf c)
      in c\<lparr>next_seq := n, consumed := consumed c @ cs, c_buf := rest\<rparr>)"

definition handle_handshake :: "u64 \<Rightarrow> 'p consumer \<Rightarrow> 'p consumer" where
  "handle_handshake off c =
     (if off \<ge> next_seq c then try_consume_buffer (c\<lparr>next_seq := off + 1\<rparr>) else c)"

text \<open>
  The insertion of \<open>handle_event\<close>: before the first buffered event whose number is at least
  that of \<open>e\<close>, unless that event has the same number; at the end when there is none.
\<close>

fun insert_event :: "'p event \<Rightarrow> 'p event list \<Rightarrow> 'p event list" where
  "insert_event e [] = [e]"
| "insert_event e (x # xs) =
     (if seq x \<ge> seq e then (if seq x \<noteq> seq e then e # x # xs else x # xs)
      else x # insert_event e xs)"

definition handle_event :: "u64 \<Rightarrow> 'p \<Rightarrow> 'p consumer \<Rightarrow> 'p consumer" where
  "handle_event s payload c =
     (if next_seq c = s
      then try_consume_buffer
             (c\<lparr>consumed := consumed c @ [\<lparr>seq = s, content = payload\<rparr>],
                next_seq := next_seq c + 1\<rparr>)
      else if s > next_seq c
      then c\<lparr>c_buf := insert_event \<lparr>seq = s, content = payload\<rparr> (c_buf c)\<rparr>
      else c)"

definition send_ack :: "'p consumer \<Rightarrow> 'p consumer" where
  "send_ack c =
     c\<lparr>c_sent := c_sent c @ [Cumulative_ack (if next_seq c > 0 then next_seq c - 1 else 0)]\<rparr>"

text \<open>
  \<open>tick\<close> can fail. \<open>tick_ % ack_interval_\<close> divides by zero when the interval was set
  to 0. \<open>seqs.reserve(last - first)\<close> on the empty vector does nothing for 0, throws
  \<open>std::length_error\<close> when the unsigned difference exceeds the vector's \<open>max_size()\<close>, and
  otherwise allocates, which throws \<open>std::bad_alloc\<close> when the request cannot be served.
  What the implementation fixes and what the allocator can serve are parameters: the
  record \<open>allocator\<close>. The buffer being sorted, the loop after a successful \<open>reserve\<close>
  appends at most \<open>last - first\<close> numbers and so never allocates again. A failed call
  yields the error together with the consumer as the call left it: the tick counter, the
  last seen sequence number and the idle counter keep their new values.
\<close>

datatype tick_error = Division_by_zero | Length_error | Bad_alloc

record allocator =
  max_size :: nat
  serves :: "nat \<Rightarrow> bool"

definition reserve :: "allocator \<Rightarrow> nat \<Rightarrow> tick_error option" where
  "reserve al n =
     (if n = 0 then None
      else if n > max_size al then Some Length_error
      else if serves al n then None
      else Some Bad_alloc)"

text \<open>\<open>if (tick_ % ack_interval_ == 0) send_ack();\<close>\<close>

definition periodic_ack :: "'p consumer \<Rightarrow> (tick_error \<times> 'p consumer) + 'p consumer" where
  "periodic_ack c =
     (if ack_interval c = 0 then Inl (Division_by_zero, c)
      else Inr (if tick_count c mod ucast (ack_interval c) = 0 then send_ack c else c))"

text \<open>The inner loop of \<open>generate\<close>: \<open>for (; i < found; ++i) seqs.emplace_back(i);\<close>\<close>

function count_up :: "u64 \<Rightarrow> u64 \<Rightarrow> u64 list" where
  "count_up i found = (if i < found then i # count_up (i + 1) found else [])"
  by pat_completeness auto
termination
proof (relation "measure (\<lambda>(i, found). unat found - unat i)")
  show "wf (measure (\<lambda>(i :: u64, found :: u64). unat found - unat i))" by simp
next
  fix i found :: u64
  assume lt: "i < found"
  have "found \<le> - 1" by simp
  with lt have "i \<noteq> - 1" by auto
  then have "1 + i \<noteq> 0" by (simp add: add_eq_0_iff)
  then have "unat (i + 1) = Suc (unat i)" using unatSuc [of i] by (simp add: add.commute)
  with lt show "((i + 1, found), (i, found)) \<in> measure (\<lambda>(i, found). unat found - unat i)"
    by (simp add: word_less_nat_alt)
qed

declare count_up.simps [simp del]

text \<open>
  \<open>generate\<close> applied to the buffered numbers in turn, from the counter \<open>i\<close>: the numbers
  below \<open>found\<close> are collected, then the counter steps over \<open>found\<close>.
\<close>

fun missing_seqs :: "u64 \<Rightarrow> u64 list \<Rightarrow> u64 list" where
  "missing_seqs i [] = []"
| "missing_seqs i (found # rest) =
     count_up i found @ missing_seqs ((if i < found then found else i) + 1) rest"

definition tick :: "allocator \<Rightarrow> 'p consumer \<Rightarrow> (tick_error \<times> 'p consumer) + 'p consumer" where
  "tick al c =
     (let progressed = next_seq c > last_tick_seq c;
          c1 = c\<lparr>last_tick_seq := next_seq c, tick_count := tick_count c + 1\<rparr>
      in if progressed
         then periodic_ack (if idle_ticks c1 > 0 then c1\<lparr>idle_ticks := 0\<rparr> else c1)
         else let c2 = c1\<lparr>idle_ticks := idle_ticks c1 + 1\<rparr>
              in if c_buf c2 \<noteq> [] \<and> idle_ticks c2 \<ge> nack_timeout c2
                 then (let c3 = c2\<lparr>idle_ticks := 0\<rparr>;
                           first = next_seq c3;
                           last_seq = seq (last (c_buf c3))
                       in case reserve al (unat (last_seq - first)) of
                            Some err \<Rightarrow> Inl (err, c3)
                          | None \<Rightarrow>
                              Inr (c3\<lparr>c_sent := c_sent c3
                                         @ [Nack (missing_seqs first (map seq (c_buf c3)))]\<rparr>))
                 else periodic_ack c2)"

text \<open>
  Traces of consumer calls. The object stays usable after a \<open>tick\<close> that threw, so a trace
  carries on from the state that the failed call left.
\<close>

datatype 'p consumer_call =
    Handle_handshake u64
  | Handle_event u64 'p
  | Tick

fun state_after :: "(tick_error \<times> 'p consumer) + 'p consumer \<Rightarrow> 'p consumer" where
  "state_after (Inl (err, c)) = c"
| "state_after (Inr c) = c"

fun consumer_step :: "allocator \<Rightarrow> 'p consumer_call \<Rightarrow> 'p consumer \<Rightarrow> 'p consumer" where
  "consumer_step al (Handle_handshake off) c = handle_handshake off c"
| "consumer_step al (Handle_event s payload) c = handle_event s payload c"
| "consumer_step al Tick c = state_after (tick al c)"

fun run_consumer :: "allocator \<Rightarrow> 'p consumer_call list \<Rightarrow> 'p consumer \<Rightarrow> 'p consumer" where
  "run_consumer al [] c = c"
| "run_consumer al (x # xs) c = run_consumer al xs (consumer_step al x c)"

text \<open>An allocator that serves every request up to a maximal size of 1000 elements.\<close>

definition roomy :: allocator where
  "roomy = \<lparr>max_size = 1000, serves = (\<lambda>n. True)\<rparr>"





text \<open>The sequence numbers from \<open>i\<close> up to but not including \<open>j\<close>, ascending.\<close>

definition seq_range :: "u64 \<Rightarrow> u64 \<Rightarrow> u64 list" where
  "seq_range i j = map of_nat [unat i ..< unat j]"

text \<open>
  The gap list in the words of the specification: the ascending list of the sequence
  numbers from \<open>next_seq\<close> up to but not including the last buffered one that are absent
  from the reorder buffer.
\<close>

definition missing_in_window :: "'p consumer \<Rightarrow> u64 list" where
  "missing_in_window c =
     filter (\<lambda>s. s \<notin> seq ` set (c_buf c)) (seq_range (next_seq c) (seq (last (c_buf c))))"

section \<open>The master state machine (\<open>master_state\<close>, src/unnamed/part_003)\<close>

subsection \<open>Values, commands and what the master emits\<close>

text \<open>
  The value variant \<open>data\<close>, with the alternatives the master inspects (none, bool, set,
  vector) and those used as keys and values below. Counts are \<open>uint64_t\<close>.
\<close>

datatype data =
    D_none
  | D_bool bool
  | D_count u64
  | D_integer int
  | D_string string
  | D_set "data list"
  | D_vector "data list"

datatype data_type = T_none | T_bool | T_count | T_integer | T_string | T_set | T_vector

text \<open>Points in time and durations count nanoseconds; actors and requests are numbered.\<close>

type_synonym timestamp = int
type_synonym timespan = int
type_synonym entity_id = nat
type_synonym request_id = nat
type_synonym publisher_id = "nat \<times> nat"

text \<open>
  The command variant. The fields are, in order: key, value, (initial type,) expiry,
  publisher, and for \<open>put_unique\<close> the requester \<open>who\<close> and the request id. A handle that
  may be \<open>nullptr\<close> is an option.
\<close>

datatype internal_command =
    No_command
  | Put_command data data "timespan option" publisher_id
  | Put_unique_command data data "timespan option" publisher_id entity_id request_id
  | Erase_command data publisher_id
  | Expire_command data publisher_id
  | Add_command data data data_type "timespan option" publisher_id
  | Subtract_command data data "timespan option" publisher_id
  | Snapshot_command "entity_id option" "entity_id option"
  | Snapshot_sync_command "entity_id option"
  | Set_command "(data \<times> data) list"
  | Clear_command publisher_id

datatype store_event =
    Insert data data "timespan option" publisher_id
  | Update data data data "timespan option" publisher_id
  | Erase data publisher_id
  | Expire data publisher_id

text \<open>What \<open>self->send\<close> delivers to a single actor.\<close>

datatype master_msg =
    Reply data request_id
  | Direct internal_command

subsection \<open>The storage backend\<close>

text \<open>
  \<open>abstract_backend\<close> is not among the sources; the master reaches it through a pointer,
  so the operations are a parameter here. A reading operation (\<open>const\<close> in the interface)
  returns a value or an error; a writing operation returns its error, if any, and the
  backend afterwards.
\<close>

record 'b backend_ops =
  b_put :: "data \<Rightarrow> data \<Rightarrow> timestamp option \<Rightarrow> 'b \<Rightarrow> ec option \<times> 'b"
  b_add :: "data \<Rightarrow> data \<Rightarrow> data_type \<Rightarrow> timestamp option \<Rightarrow> 'b \<Rightarrow> ec option \<times> 'b"
  b_subtract :: "data \<Rightarrow> data \<Rightarrow> timestamp option \<Rightarrow> 'b \<Rightarrow> ec option \<times> 'b"
  b_erase :: "data \<Rightarrow> 'b \<Rightarrow> ec option \<times> 'b"
  b_clear :: "'b \<Rightarrow> ec option \<times> 'b"
  b_expire :: "data \<Rightarrow> timestamp \<Rightarrow> 'b \<Rightarrow> (ec + bool) \<times> 'b"
  b_get :: "'b \<Rightarrow> data \<Rightarrow> ec + data"
  b_exists :: "'b \<Rightarrow> data \<Rightarrow> ec + bool"
  b_keys :: "'b \<Rightarrow> ec + data"
  b_snapshot :: "'b \<Rightarrow> ec + (data \<times> data) list"
  b_expiries :: "'b \<Rightarrow> ec + (data \<times> timestamp) list"

subsection \<open>The master\<close>

text \<open>
  The state of the master and, as logs, its effects on the outside: \<open>reminders\<close> are the
  calls of \<open>clock->send_later\<close> with an expire message for a key, \<open>events\<close> the emitted
  store events, \<open>published\<close> the commands handed to the core for the clones' topic, \<open>sent\<close>
  the messages to single actors, \<open>monitored\<close> the monitored actors. \<open>clones\<close> is the map
  from a core's address to its clone.
\<close>

record 'b master_state =
  backend :: 'b
  clones :: "(entity_id \<times> entity_id) list"
  monitored :: "entity_id list"
  reminders :: "(timespan \<times> data) list"
  events :: "store_event list"
  published :: "internal_command list"
  sent :: "(entity_id \<times> master_msg) list"

datatype fatal = Failed_to_snapshot | Failed_to_clear

definition to_opt_timestamp :: "timestamp \<Rightarrow> timespan option \<Rightarrow> timestamp option" where
  "to_opt_timestamp ts span = (case span of Some s \<Rightarrow> Some (ts + s) | None \<Rightarrow> None)"

definition broadcast :: "internal_command \<Rightarrow> 'b master_state \<Rightarrow> 'b master_state" where
  "broadcast x m = m\<lparr>published := published m @ [x]\<rparr>"

text \<open>
  Modelled from the spec: \<open>broadcast_cmd_to_clones\<close> is declared in a header that is not
  among the sources. The specification has every broadcast fan out to all active clones
  over the command channel, which is \<open>broadcast\<close>.
\<close>

definition broadcast_cmd_to_clones :: "internal_command \<Rightarrow> 'b master_state \<Rightarrow> 'b master_state" where
  "broadcast_cmd_to_clones x m = broadcast x m"

text \<open>
  Modelled from the spec: the \<open>emit_*_event\<close> functions belong to the base class of the
  master, which is not among the sources. The specification has them produce
  \<open>insert(key, value, expiry?, publisher)\<close>, \<open>update(key, old, new, expiry?, publisher)\<close>,
  \<open>erase(key, publisher)\<close> and \<open>expire(key, publisher)\<close> on the local observer stream.
\<close>

definition emit :: "store_event \<Rightarrow> 'b master_state \<Rightarrow> 'b master_state" where
  "emit e m = m\<lparr>events := events m @ [e]\<rparr>"

definition remind :: "timespan \<Rightarrow> data \<Rightarrow> 'b master_state \<Rightarrow> 'b master_state" where
  "remind expiry key m = m\<lparr>reminders := reminders m @ [(expiry, key)]\<rparr>"

text \<open>\<open>if (x.expiry) remind(*x.expiry, x.key);\<close>\<close>

definition remind_opt :: "timespan option \<Rightarrow> data \<Rightarrow> 'b master_state \<Rightarrow> 'b master_state" where
  "remind_opt expiry key m = (case expiry of Some e \<Rightarrow> remind e key m | None \<Rightarrow> m)"

definition send_to :: "entity_id \<Rightarrow> master_msg \<Rightarrow> 'b master_state \<Rightarrow> 'b master_state" where
  "send_to who msg m = m\<lparr>sent := sent m @ [(who, msg)]\<rparr>"

definition master_exists :: "'b backend_ops \<Rightarrow> data \<Rightarrow> 'b master_state \<Rightarrow> bool" where
  "master_exists B key m = (case b_exists B (backend m) key of Inr r \<Rightarrow> r | Inl e \<Rightarrow> False)"

text \<open>
  The handlers \<open>operator()\<close>, one for each alternative of the command. \<open>now\<close> is what
  \<open>clock->now()\<close> returns during the call.
\<close>

definition on_put ::
  "'b backend_ops \<Rightarrow> timestamp \<Rightarrow> data \<Rightarrow> data \<Rightarrow> timespan option \<Rightarrow> publisher_id
     \<Rightarrow> 'b master_state \<Rightarrow> 'b master_state" where
  "on_put B now key val expiry publisher m =
     (let et = to_opt_timestamp now expiry;
          old_value = b_get B (backend m) key;
          (result, b') = b_put B key val et (backend m);
          m1 = m\<lparr>backend := b'\<rparr>
      in case result of
           Some err \<Rightarrow> m1
         | None \<Rightarrow>
             (let m2 = remind_opt expiry key m1;
                  m3 = (case old_value of
                          Inr old \<Rightarrow> emit (Update key old val expiry publisher) m2
                        | Inl err \<Rightarrow> emit (Insert key val expiry publisher) m2)
              in broadcast_cmd_to_clones (Put_command key val expiry publisher) m3))"

definition on_put_unique ::
  "'b backend_ops \<Rightarrow> timestamp \<Rightarrow> data \<Rightarrow> data \<Rightarrow> timespan option \<Rightarrow> publisher_id
     \<Rightarrow> entity_id \<Rightarrow> request_id \<Rightarrow> 'b master_state \<Rightarrow> 'b master_state" where
  "on_put_unique B now key val expiry publisher who req_id m =
     (if master_exists B key m then send_to who (Reply (D_bool False) req_id) m
      else let et = to_opt_timestamp now expiry;
               (res, b') = b_put B key val et (backend m);
               m1 = m\<lparr>backend := b'\<rparr>
           in case res of
                Some err \<Rightarrow> send_to who (Reply (D_bool False) req_id) m1
              | None \<Rightarrow>
                  (let m2 = send_to who (Reply (D_bool True) req_id) m1;
                       m3 = remind_opt expiry key m2;
                       m4 = emit (Insert key val expiry publisher) m3
                   in broadcast_cmd_to_clones (Put_command key val expiry publisher) m4))"

definition on_erase ::
  "'b backend_ops \<Rightarrow> data \<Rightarrow> publisher_id \<Rightarrow> 'b master_state \<Rightarrow> 'b master_state" where
  "on_erase B key publisher m =
     (let (res, b') = b_erase B key (backend m); m1 = m\<lparr>backend := b'\<rparr>
      in case res of
           Some err \<Rightarrow> m1
         | None \<Rightarrow> broadcast_cmd_to_clones (Erase_command key publisher)
                     (emit (Erase key publisher) m1))"

definition on_add ::
  "'b backend_ops \<Rightarrow> timestamp \<Rightarrow> data \<Rightarrow> data \<Rightarrow> data_type \<Rightarrow> timespan option \<Rightarrow> publisher_id
     \<Rightarrow> 'b master_state \<Rightarrow> 'b master_state" where
  "on_add B now key val init_type expiry publisher m =
     (let old_value = b_get B (backend m) key;
          et = to_opt_timestamp now expiry;
          (res, b') = b_add B key val init_type et (backend m);
          m1 = m\<lparr>backend := b'\<rparr>
      in case res of
           Some err \<Rightarrow> m1
         | None \<Rightarrow>
             (case b_get B b' key of
                Inl err \<Rightarrow> m1
              | Inr new \<Rightarrow>
                  (let m2 = remind_opt expiry key m1;
                       m3 = (case old_value of
                               Inr old \<Rightarrow> emit (Update key old new None publisher) m2
                             | Inl err \<Rightarrow> emit (Insert key new None publisher) m2)
                   in broadcast_cmd_to_clones (Put_command key new None publisher) m3)))"

definition on_subtract ::
  "'b backend_ops \<Rightarrow> timestamp \<Rightarrow> data \<Rightarrow> data \<Rightarrow> timespan option \<Rightarrow> publisher_id
     \<Rightarrow> 'b master_state \<Rightarrow> 'b master_state" where
  "on_subtract B now key val expiry publisher m =
     (let et = to_opt_timestamp now expiry
      in case b_get B (backend m) key of
           Inl err \<Rightarrow> m
         | Inr old \<Rightarrow>
             (let (res, b') = b_subtract B key val et (backend m); m1 = m\<lparr>backend := b'\<rparr>
              in case res of
                   Some err \<Rightarrow> m1
                 | None \<Rightarrow>
                     (case b_get B b' key of
                        Inl err \<Rightarrow> m1
                      | Inr new \<Rightarrow>
                          (let m2 = remind_opt expiry key m1;
                               m3 = emit (Update key old new None publisher) m2
                           in broadcast_cmd_to_clones (Put_command key new None publisher) m3))))"

text \<open>\<open>clones.emplace\<close>: an address that is registered keeps its clone.\<close>

definition emplace :: "entity_id \<Rightarrow> entity_id \<Rightarrow> (entity_id \<times> entity_id) list \<Rightarrow> (entity_id \<times> entity_id) list" where
  "emplace k v xs = (if map_of xs k = None then xs @ [(k, v)] else xs)"

definition on_snapshot ::
  "'b backend_ops \<Rightarrow> entity_id option \<Rightarrow> entity_id option \<Rightarrow> 'b master_state
     \<Rightarrow> fatal + 'b master_state" where
  "on_snapshot B remote_core remote_clone m =
     (case (remote_core, remote_clone) of
        (Some core_hdl, Some clone_hdl) \<Rightarrow>
          (case b_snapshot B (backend m) of
             Inl err \<Rightarrow> Inl Failed_to_snapshot
           | Inr ss \<Rightarrow>
               (let m1 = m\<lparr>monitored := monitored m @ [core_hdl],
                            clones := emplace core_hdl clone_hdl (clones m)\<rparr>;
                    m2 = broadcast_cmd_to_clones (Snapshot_sync_command remote_clone) m1
                in Inr (send_to clone_hdl (Direct (Set_command ss)) m2)))
      | _ \<Rightarrow> Inr m)"

definition on_clear ::
  "'b backend_ops \<Rightarrow> publisher_id \<Rightarrow> 'b master_state \<Rightarrow> fatal + 'b master_state" where
  "on_clear B publisher m =
     (case b_keys B (backend m) of
        Inl err \<Rightarrow> Inr m
      | Inr keys_res \<Rightarrow>
          (let ks = (case keys_res of D_vector xs \<Rightarrow> xs | D_set xs \<Rightarrow> xs | _ \<Rightarrow> []);
               m1 = fold (\<lambda>key. emit (Erase key publisher)) ks m;
               (res, b') = b_clear B (backend m1)
           in case res of
                Some err \<Rightarrow> Inl Failed_to_clear
              | None \<Rightarrow> Inr (broadcast_cmd_to_clones (Clear_command publisher)
                               (m1\<lparr>backend := b'\<rparr>))))"

text \<open>
  \<open>master_state::command\<close>: \<open>std::visit\<close> over the command. The handlers for \<open>expire\<close>,
  \<open>snapshot_sync\<close> and \<open>set\<close> commands, and for the empty command, only write to the log.
\<close>

fun command ::
  "'b backend_ops \<Rightarrow> timestamp \<Rightarrow> internal_command \<Rightarrow> 'b master_state \<Rightarrow> fatal + 'b master_state" where
  "command B now No_command m = Inr m"
| "command B now (Put_command key val expiry publisher) m =
     Inr (on_put B now key val expiry publisher m)"
| "command B now (Put_unique_command key val expiry publisher who req_id) m =
     Inr (on_put_unique B now key val expiry publisher who req_id m)"
| "command B now (Erase_command key publisher) m = Inr (on_erase B key publisher m)"
| "command B now (Expire_command key publisher) m = Inr m"
| "command B now (Add_command key val init_type expiry publisher) m =
     Inr (on_add B now key val init_type expiry publisher m)"
| "command B now (Subtract_command key val expiry publisher) m =
     Inr (on_subtract B now key val expiry publisher m)"
| "command B now (Snapshot_command remote_core remote_clone) m =
     on_snapshot B remote_core remote_clone m"
| "command B now (Snapshot_sync_command remote_clone) m = Inr m"
| "command B now (Set_command ss) m = Inr m"
| "command B now (Clear_command publisher) m = on_clear B publisher m"

subsection \<open>Three backends to run the master on\<close>

text \<open>
  Modelled from the spec: the concrete backends are not among the sources. \<open>memory_backend\<close>
  keeps the entries in a list of keys with value and expiry and follows the operations of
  the storage interface as the specification lists them: \<open>get\<close> and \<open>subtract\<close> fail with
  \<open>no_such_key\<close> on an absent key, \<open>add\<close> starts an absent key from the additive identity
  of the initial type, \<open>expire\<close> removes a key that is present with an expiry that has
  passed. Arithmetic is that of counts and integers; other values clash.
\<close>

type_synonym memory_store = "(data \<times> data \<times> timestamp option) list"

fun store_put :: "data \<Rightarrow> data \<times> timestamp option \<Rightarrow> memory_store \<Rightarrow> memory_store" where
  "store_put k v [] = [(k, v)]"
| "store_put k v ((k', v') # xs) = (if k' = k then (k, v) # xs else (k', v') # store_put k v xs)"

definition store_erase :: "data \<Rightarrow> memory_store \<Rightarrow> memory_store" where
  "store_erase k xs = filter (\<lambda>(k', v). k' \<noteq> k) xs"

fun data_add :: "data \<Rightarrow> data \<Rightarrow> ec + data" where
  "data_add (D_count a) (D_count b) = Inr (D_count (a + b))"
| "data_add (D_integer a) (D_integer b) = Inr (D_integer (a + b))"
| "data_add x y = Inl Type_clash"

fun data_subtract :: "data \<Rightarrow> data \<Rightarrow> ec + data" where
  "data_subtract (D_count a) (D_count b) = Inr (D_count (a - b))"
| "data_subtract (D_integer a) (D_integer b) = Inr (D_integer (a - b))"
| "data_subtract x y = Inl Type_clash"

fun additive_identity :: "data_type \<Rightarrow> data" where
  "additive_identity T_count = D_count 0"
| "additive_identity T_integer = D_integer 0"
| "additive_identity T_bool = D_bool False"
| "additive_identity T_string = D_string []"
| "additive_identity T_set = D_set []"
| "additive_identity T_vector = D_vector []"
| "additive_identity T_none = D_none"

definition memory_backend :: "memory_store backend_ops" where
  "memory_backend =
     \<lparr>b_put = (\<lambda>k v e b. (None, store_put k (v, e) b)),
      b_add = (\<lambda>k v t e b.
         (case data_add (case map_of b k of Some (old, x) \<Rightarrow> old | None \<Rightarrow> additive_identity t) v of
            Inl err \<Rightarrow> (Some err, b)
          | Inr new \<Rightarrow> (None, store_put k (new, e) b))),
      b_subtract = (\<lambda>k v e b.
         (case map_of b k of
            None \<Rightarrow> (Some No_such_key, b)
          | Some (old, x) \<Rightarrow>
              (case data_subtract old v of
                 Inl err \<Rightarrow> (Some err, b)
               | Inr new \<Rightarrow> (None, store_put k (new, e) b)))),
      b_erase = (\<lambda>k b. (None, store_erase k b)),
      b_clear = (\<lambda>b. (None, [])),
      b_expire = (\<lambda>k now b.
         (case map_of b k of
            Some (v, Some t) \<Rightarrow> if t \<le> now then (Inr True, store_erase k b) else (Inr False, b)
          | _ \<Rightarrow> (Inr False, b))),
      b_get = (\<lambda>b k. case map_of b k of Some (v, e) \<Rightarrow> Inr v | None \<Rightarrow> Inl No_such_key),
      b_exists = (\<lambda>b k. Inr (map_of b k \<noteq> None)),
      b_keys = (\<lambda>b. Inr (D_set (map fst b))),
      b_snapshot = (\<lambda>b. Inr (map (\<lambda>(k, v, e). (k, v)) b)),
      b_expiries = (\<lambda>b. Inr (concat (map (\<lambda>(k, v, e). case e of Some t \<Rightarrow> [(k, t)] | None \<Rightarrow> []) b)))\<rparr>"

text \<open>
  Modelled from the spec: a second backend, one that holds no key and whose writes all fail
  with \<open>backend_failure\<close>, as the storage interface allows every writing operation to:
  what the master sees of a store that cannot be written.
\<close>

definition failing_backend :: "unit backend_ops" where
  "failing_backend =
     \<lparr>b_put = (\<lambda>k v e b. (Some Backend_failure, b)),
      b_add = (\<lambda>k v t e b. (Some Backend_failure, b)),
      b_subtract = (\<lambda>k v e b. (Some Backend_failure, b)),
      b_erase = (\<lambda>k b. (Some Backend_failure, b)),
      b_clear = (\<lambda>b. (Some Backend_failure, b)),
      b_expire = (\<lambda>k now b. (Inl Backend_failure, b)),
      b_get = (\<lambda>b k. Inl No_such_key),
      b_exists = (\<lambda>b k. Inr False),
      b_keys = (\<lambda>b. Inr D_none),
      b_snapshot = (\<lambda>b. Inr []),
      b_expiries = (\<lambda>b. Inr [])\<rparr>"

text \<open>
  Modelled from the spec: a third backend, a store with one count under every key that
  accepts a \<open>subtract\<close> and cannot be read afterwards: \<open>get\<close> then fails with
  \<open>backend_failure\<close>, as the storage interface allows every operation to. Its state tells
  whether it can still be read.
\<close>

definition fading_backend :: "bool backend_ops" where
  "fading_backend =
     \<lparr>b_put = (\<lambda>k v e b. (None, False)),
      b_add = (\<lambda>k v t e b. (None, False)),
      b_subtract = (\<lambda>k v e b. (None, False)),
      b_erase = (\<lambda>k b. (None, False)),
      b_clear = (\<lambda>b. (None, False)),
      b_expire = (\<lambda>k now b. (Inr False, b)),
      b_get = (\<lambda>b k. if b then Inr (D_count 5) else Inl Backend_failure),
      b_exists = (\<lambda>b k. if b then Inr True else Inl Backend_failure),
      b_keys = (\<lambda>b. Inl Backend_failure),
      b_snapshot = (\<lambda>b. Inl Backend_failure),
      b_expiries = (\<lambda>b. Inl Backend_failure)\<rparr>"

definition new_master :: "'b \<Rightarrow> 'b master_state" where
  "new_master b =
     \<lparr>backend = b, clones = [], monitored = [], reminders = [], events = [], published = [],
      sent = []\<rparr>"

section \<open>Address masking\<close>

lemma store32_word_of_bytes: "store32 le (word_of_bytes le a b c d) = [a, b, c, d]"
  unfolding store32_def word_of_bytes_def Let_def
  by (cases le; simp; intro conjI; rule bit_word_eqI;
      auto simp add: bit_simps dest: bit_imp_le_length)

lemma store32_load32:
  "store32 le (load32 le bs i) = [bs ! (4 * i), bs ! (4 * i + 1), bs ! (4 * i + 2), bs ! (4 * i + 3)]"
  by (simp add: load32_def store32_word_of_bytes)

lemma length_store32: "length (store32 le w) = 4"
  by (simp add: store32_def Let_def)

lemma word_of_bytes_split:
  "word_of_bytes True (ucast w) (ucast (drop_bit 8 w)) (ucast (drop_bit 16 w)) (ucast (drop_bit 24 w)) = w"
proof (rule bit_word_eqI)
  fix n assume "n < LENGTH(32)"
  then consider "n < 8" | "8 \<le> n" "n < 16" | "16 \<le> n" "n < 24" | "24 \<le> n" "n < 32"
    by fastforce
  then show "bit (word_of_bytes True (ucast w) (ucast (drop_bit 8 w)) (ucast (drop_bit 16 w))
                    (ucast (drop_bit 24 w))) n = bit w n"
  proof cases
    case 1 then show ?thesis by (auto simp add: word_of_bytes_def bit_simps)
  next
    case 2 then show ?thesis by (auto simp add: word_of_bytes_def bit_simps)
  next
    case 3 then show ?thesis by (auto simp add: word_of_bytes_def bit_simps)
  next
    case 4 then show ?thesis by (auto simp add: word_of_bytes_def bit_simps)
  qed
qed

lemma word_of_bytes_rev: "word_of_bytes False a b c d = word_of_bytes True d c b a"
  by (simp add: word_of_bytes_def)

lemma load32_store32_0: "load32 le (store32 le w @ rest) 0 = w"
  using word_of_bytes_split [of w]
  by (cases le) (simp_all add: load32_def store32_def word_of_bytes_rev)

lemma load32_skip: "length pre = 4 \<Longrightarrow> load32 le (pre @ bs) (Suc i) = load32 le bs i"
  by (simp add: load32_def nth_append add.commute)

lemma load32_store32_1: "load32 le (store32 le a @ store32 le w @ rest) (Suc 0) = w"
  by (simp add: load32_skip length_store32 load32_store32_0)

lemma load32_store32_2:
  "load32 le (store32 le a @ store32 le b @ store32 le w @ rest) (Suc (Suc 0)) = w"
  by (simp add: load32_skip length_store32 load32_store32_0)

lemma load32_store32_3:
  "load32 le (store32 le a @ store32 le b @ store32 le c @ store32 le w @ rest)
     (Suc (Suc (Suc 0))) = w"
  by (simp add: load32_skip length_store32 load32_store32_0)

lemma upt_0_4: "[0 ..< 4] = [0, Suc 0, Suc (Suc 0), Suc (Suc (Suc 0))]"
  by (simp add: upt_rec)

lemma apply_mask_idem: "apply_mask le m (apply_mask le m a) = apply_mask le m a"
  unfolding apply_mask_def upt_0_4
  by (simp add: load32_store32_0 load32_store32_1 load32_store32_2
      load32_store32_3 [where rest = "[]", simplified])

lemma apply_mask_ones:
  assumes "length a = 16"
  shows "apply_mask le (replicate 4 0xffffffff) a = a"
proof -
  have m: "(0xffffffff :: u32) = - 1" by simp
  from assms obtain x0 x1 x2 x3 y0 y1 y2 y3 z0 z1 z2 z3 t0 t1 t2 t3
    where a: "a = [x0, x1, x2, x3, y0, y1, y2, y3, z0, z1, z2, z3, t0, t1, t2, t3]"
    by (auto simp add: numeral_eq_Suc length_Suc_conv)
  show ?thesis
    unfolding a apply_mask_def upt_0_4 m by (simp add: store32_load32 eval_nat_numeral)
qed

lemma store32_zero: "store32 le 0 = [0, 0, 0, 0]"
  by (simp add: store32_def Let_def)

lemma replicate_4: "replicate 4 x = [x, x, x, x]"
  by (simp add: numeral_eq_Suc)

lemma replicate_16: "replicate 16 x = [x, x, x, x, x, x, x, x, x, x, x, x, x, x, x, x]"
  by (simp add: numeral_eq_Suc)

lemma apply_mask_zero: "apply_mask le (replicate 4 0) a = replicate 16 0"
  unfolding apply_mask_def upt_0_4
  by (simp add: store32_zero replicate_4 replicate_16)

lemma mask_words_128: "mask_words le 128 = replicate 4 0xffffffff"
  by (simp add: mask_words_def)

lemma byte_swap32_zero: "byte_swap32 0 = 0"
  by (simp add: byte_swap32_def word_of_bytes_def)

lemma mask_words_0: "mask_words le 0 = replicate 4 0"
  by (simp add: mask_words_def bit_mask32_def to_network_order_def byte_swap32_zero upt_rec Let_def
      replicate_4)

text \<open>
  Claim C9. For every address \<open>a\<close> (16 bytes) and every \<open>n\<close> from 0 to 128, \<open>mask n\<close>
  returns true and masking twice gives the same bytes as masking once; \<open>mask 128\<close> leaves
  the bytes unchanged; \<open>mask 0\<close> makes all 16 bytes zero; for every \<open>n\<close> above 128,
  \<open>mask n\<close> returns false. This holds for either host byte order.
\<close>

theorem address_mask_properties:
  "length a = 16 \<Longrightarrow>
     (n \<le> 128 \<longrightarrow> fst (mask le n a) \<and> snd (mask le n (snd (mask le n a))) = snd (mask le n a))
     \<and> snd (mask le 128 a) = a
     \<and> snd (mask le 0 a) = replicate 16 0
     \<and> (128 < n \<longrightarrow> \<not> fst (mask le n a))"
  by (auto simp add: mask_def apply_mask_idem mask_words_128 mask_words_0 apply_mask_ones
      apply_mask_zero)

theorem address_mask_properties_witness:
  "snd (mask True 20 (snd (mask True 20 [192, 168, 77, 13, 0, 0, 0, 0, 0, 0, 0, 0, 0, 0, 0, 1])))
     = snd (mask True 20 [192, 168, 77, 13, 0, 0, 0, 0, 0, 0, 0, 0, 0, 0, 0, 1])
   \<and> fst (mask True 20 [192, 168, 77, 13, 0, 0, 0, 0, 0, 0, 0, 0, 0, 0, 0, 1])
   \<and> \<not> fst (mask True 200 [192, 168, 77, 13, 0, 0, 0, 0, 0, 0, 0, 0, 0, 0, 0, 1])"
  using address_mask_properties [of "[192, 168, 77, 13, 0, 0, 0, 0, 0, 0, 0, 0, 0, 0, 0, 1]" 20 True]
    address_mask_properties [of "[192, 168, 77, 13, 0, 0, 0, 0, 0, 0, 0, 0, 0, 0, 0, 1]" 200 True]
  by simp

section \<open>Producer\<close>

lemma ack_paths_fst:
  "fst (ack_paths h s ps a) = map (\<lambda>x. if hdl x = h then x\<lparr>acked := s\<rparr> else x) ps"
  by (induction ps arbitrary: a) (simp_all add: case_prod_beta)

lemma Min_insert_min:
  fixes u v :: "'a :: linorder"
  assumes "finite S"
  shows "Min (insert (min u v) S) = Min (insert u (insert v S))"
proof (cases "S = {}")
  case True then show ?thesis by (simp add: min.commute)
next
  case False
  with assms show ?thesis by (simp add: min.assoc)
qed

lemma ack_paths_snd:
  "snd (ack_paths h s ps a) = Min (insert a (acked ` {x \<in> set ps. hdl x \<noteq> h}))"
proof (induction ps arbitrary: a)
  case Nil
  then show ?case by simp
next
  case (Cons x xs)
  have fin: "finite (acked ` {y \<in> set xs. hdl y \<noteq> h})" by simp
  show ?case
  proof (cases "hdl x = h")
    case True
    then have "{y \<in> set (x # xs). hdl y \<noteq> h} = {y \<in> set xs. hdl y \<noteq> h}" by auto
    with True Cons.IH [of a] show ?thesis by (simp add: case_prod_beta)
  next
    case False
    then have "{y \<in> set (x # xs). hdl y \<noteq> h} = insert x {y \<in> set xs. hdl y \<noteq> h}" by auto
    with False Cons.IH [of "min (acked x) a"] Min_insert_min [OF fin, of "acked x" a]
    show ?thesis by (simp add: case_prod_beta insert_commute del: Min_insert)
  qed
qed

lemma handle_ack_paths:
  "p_paths (handle_ack h s p) = map (\<lambda>x. if hdl x = h then x\<lparr>acked := s\<rparr> else x) (p_paths p)"
  by (simp add: handle_ack_def case_prod_beta ack_paths_fst)

lemma handle_ack_buf:
  "p_buf (handle_ack h s p) =
     dropWhile (\<lambda>x. seq x \<le> Min (insert s (acked ` {x \<in> set (p_paths p). hdl x \<noteq> h}))) (p_buf p)"
  by (simp add: handle_ack_def case_prod_beta Let_def not_less ack_paths_snd
      del: Min_insert Min_le_iff Min_ge_iff)

lemma handle_ack_frame [simp]:
  "p_seq (handle_ack h s p) = p_seq p" "p_sent (handle_ack h s p) = p_sent p"
  by (simp_all add: handle_ack_def case_prod_beta)

lemma dropWhile_sorted_filter:
  "sorted_wrt (<) (map f xs) \<Longrightarrow> dropWhile (\<lambda>x. f x \<le> (a :: 'a :: linorder)) xs = filter (\<lambda>x. a < f x) xs"
proof (induction xs)
  case Nil then show ?case by simp
next
  case (Cons x xs)
  show ?case
  proof (cases "f x \<le> a")
    case True with Cons show ?thesis by simp
  next
    case False
    with Cons.prems have "\<forall>y \<in> set xs. a < f y" by auto
    then have "filter (\<lambda>x. a < f x) xs = xs" by simp
    with False show ?thesis by simp
  qed
qed

lemma emitted_events_append:
  "emitted_events (xs @ ys) = emitted_events xs @ emitted_events ys"
  by (induction xs rule: emitted_events.induct) simp_all

lemma sorted_of_nat_upt:
  assumes "n \<le> 2 ^ 64 - 1"
  shows "sorted_wrt (<) (map (\<lambda>i. of_nat (Suc i) :: u64) [0 ..< n])"
proof -
  have "(of_nat (Suc i) :: u64) < of_nat (Suc j)" if "i < j" "j < n" for i j
  proof -
    have "Suc i < 2 ^ 64" "Suc j < 2 ^ 64" using that assms by simp_all
    then show ?thesis
      using that(1) by (simp add: word_of_nat_less_iff take_bit_nat_eq_self del: of_nat_Suc)
  qed
  then show ?thesis
    by (simp add: sorted_wrt_iff_nth_less del: of_nat_Suc)
qed

lemma unat_le_max64: "unat (x :: u64) \<le> 2 ^ 64 - 1"
  using unsigned_less [of x, where 'a = nat] by simp

lemma producer_inv_sorted:
  assumes "producer_inv p"
  shows "sorted_wrt (<) (map seq (emitted_events (p_sent p)))"
  using assms sorted_of_nat_upt [OF unat_le_max64 [of "p_seq p"]]
  by (simp add: producer_inv_def)

lemma unat_succ:
  fixes x :: u64
  assumes "x \<noteq> - 1"
  shows "unat (x + 1) = Suc (unat x)"
proof -
  have "1 + x \<noteq> 0" using assms by (simp add: add_eq_0_iff)
  then show ?thesis using unatSuc [of x] by (simp add: add.commute)
qed

lemma min_acked_le: "x \<in> set ps \<Longrightarrow> min_acked ps \<le> acked x"
  by (simp add: min_acked_def)

lemma min_acked_in: "ps \<noteq> [] \<Longrightarrow> \<exists>x \<in> set ps. min_acked ps = acked x"
proof -
  assume "ps \<noteq> []"
  then have "Min (acked ` set ps) \<in> acked ` set ps" by (intro Min_in) simp_all
  then show ?thesis by (auto simp add: min_acked_def)
qed

lemma producer_inv_min_le:
  assumes "producer_inv p"
  shows "min_acked (p_paths p) \<le> p_seq p"
proof -
  from assms obtain x where "x \<in> set (p_paths p)" "min_acked (p_paths p) = acked x"
    using min_acked_in [of "p_paths p"] by (auto simp add: producer_inv_def)
  with assms show ?thesis by (simp add: producer_inv_def)
qed

lemma produce_inv:
  assumes "producer_inv p" "p_seq p \<noteq> - 1"
  shows "producer_inv (produce c p)"
proof -
  have n: "unat (p_seq p + 1) = Suc (unat (p_seq p))"
    using assms(2) by (rule unat_succ)
  have m: "min_acked (p_paths p) \<le> p_seq p"
    using assms(1) by (rule producer_inv_min_le)
  have lt: "p_seq p < p_seq p + 1"
    using n by (simp add: word_less_nat_alt)
  from m lt have "min_acked (p_paths p) < p_seq p + 1" by simp
  moreover have "\<forall>x \<in> set (p_paths p). acked x \<le> p_seq p + 1"
    using assms(1) lt by (auto simp add: producer_inv_def)
  ultimately show ?thesis
    using assms(1) n
    by (simp add: producer_inv_def produce_def Let_def emitted_events_append)
qed

lemma filter_cong_set: "(\<And>x. x \<in> set xs \<Longrightarrow> P x = Q x) \<Longrightarrow> filter P xs = filter Q xs"
  by (induction xs) simp_all

lemma acked_image_update:
  "acked ` set (map (\<lambda>x. if hdl x = h then x\<lparr>acked := s\<rparr> else x) ps) =
     (if \<exists>x \<in> set ps. hdl x = h then {s} else {}) \<union> acked ` {x \<in> set ps. hdl x \<noteq> h}"
  by (induction ps) auto

lemma handle_ack_inv:
  assumes inv: "producer_inv p"
    and le: "s \<le> p_seq p"
    and mono: "\<forall>x \<in> set (p_paths p). hdl x = h \<longrightarrow> acked x \<le> s"
  shows "producer_inv (handle_ack h s p)"
proof -
  let ?ps = "p_paths p"
  let ?ps' = "map (\<lambda>x. if hdl x = h then x\<lparr>acked := s\<rparr> else x) ?ps"
  let ?E = "emitted_events (p_sent p)"
  let ?others = "acked ` {x \<in> set ?ps. hdl x \<noteq> h}"
  define a where "a = Min (insert s ?others)"
  define m where "m = min_acked ?ps"
  define m' where "m' = min_acked ?ps'"
  have ne: "?ps \<noteq> []" using inv by (simp add: producer_inv_def)
  have a_le: "a \<le> v" if "v \<in> insert s ?others" for v
    unfolding a_def using that by (intro Min_le) simp_all
  have a_in: "a \<in> insert s ?others" unfolding a_def by (intro Min_in) simp_all
  have set': "acked ` set ?ps' = (if \<exists>x \<in> set ?ps. hdl x = h then {s} else {}) \<union> ?others"
    by (rule acked_image_update)
  have key: "(a < v \<and> m < v) = (m' < v)" for v
  proof (cases "\<exists>x \<in> set ?ps. hdl x = h")
    case True
    then have eq: "acked ` set ?ps' = insert s ?others" using set' by simp
    have m': "m' = a" by (simp only: m'_def a_def min_acked_def set_map [of acked] eq)
    have "m \<le> a"
    proof -
      from a_in consider "a = s" | "a \<in> ?others" by auto
      then show ?thesis
      proof cases
        case 1
        from True obtain x where "x \<in> set ?ps" "hdl x = h" by auto
        with mono min_acked_le [of x ?ps] 1 show ?thesis by (auto simp add: m_def)
      next
        case 2
        then obtain x where "x \<in> set ?ps" "a = acked x" by auto
        with min_acked_le [of x ?ps] show ?thesis by (simp add: m_def)
      qed
    qed
    with m' show ?thesis by auto
  next
    case False
    then have "?ps' = ?ps" by (simp add: map_idI)
    then have "m' = m" by (simp add: m_def m'_def)
    moreover have "a \<le> m"
    proof -
      from min_acked_in [OF ne] obtain x where x: "x \<in> set ?ps" "m = acked x"
        by (auto simp add: m_def)
      with False have "acked x \<in> insert s ?others" by auto
      from a_le [OF this] x show ?thesis by simp
    qed
    ultimately show ?thesis by auto
  qed
  have sorted: "sorted_wrt (<) (map seq (filter (\<lambda>e. m < seq e) ?E))"
    using producer_inv_sorted [OF inv] by (simp add: sorted_wrt_map sorted_wrt_filter)
  have "p_buf (handle_ack h s p) = dropWhile (\<lambda>x. seq x \<le> a) (p_buf p)"
    unfolding a_def by (rule handle_ack_buf)
  also have "\<dots> = filter (\<lambda>x. a < seq x) (filter (\<lambda>e. m < seq e) ?E)"
    using inv dropWhile_sorted_filter [OF sorted, of a] by (simp add: producer_inv_def m_def)
  also have "\<dots> = filter (\<lambda>e. m' < seq e) ?E"
    using key by (simp add: conj_commute)
  finally have buf: "p_buf (handle_ack h s p) = filter (\<lambda>e. min_acked ?ps' < seq e) ?E"
    by (simp add: m'_def)
  have bound: "\<forall>x \<in> set ?ps'. acked x \<le> p_seq p"
    using inv le by (auto simp add: producer_inv_def)
  show ?thesis
    unfolding producer_inv_def handle_ack_paths handle_ack_frame
    using inv ne buf bound by (simp add: producer_inv_def handle_ack_paths)
qed

lemma min_acked_snoc:
  assumes "ps \<noteq> []"
  shows "min_acked (ps @ [x]) = min (acked x) (min_acked ps)"
proof -
  have "set (map acked (ps @ [x])) = insert (acked x) (set (map acked ps))" by simp
  moreover have "Min (insert (acked x) (set (map acked ps))) = min (acked x) (Min (set (map acked ps)))"
    using assms by (intro Min_insert) simp_all
  ultimately show ?thesis by (simp only: min_acked_def)
qed

lemma add_frame:
  "p_seq (snd (add h p)) = p_seq p" "p_buf (snd (add h p)) = p_buf p"
  "emitted_events (p_sent (snd (add h p))) = emitted_events (p_sent p)"
  by (simp_all add: add_def Let_def emitted_events_append)

lemma add_inv:
  assumes "producer_inv p"
  shows "producer_inv (snd (add h p))"
proof (cases "find_path h p = None")
  case False
  with assms show ?thesis by (simp add: add_def)
next
  case True
  let ?x = "\<lparr>hdl = h, offset = p_seq p + 1, acked = p_seq p\<rparr>"
  have ne: "p_paths p \<noteq> []" using assms by (simp add: producer_inv_def)
  have paths: "p_paths (snd (add h p)) = p_paths p @ [?x]"
    using True by (simp add: add_def Let_def)
  have "min_acked (p_paths p @ [?x]) = min (acked ?x) (min_acked (p_paths p))"
    using ne by (rule min_acked_snoc)
  with producer_inv_min_le [OF assms]
  have m: "min_acked (p_paths (snd (add h p))) = min_acked (p_paths p)"
    by (simp add: paths min_def)
  show ?thesis
    using assms unfolding producer_inv_def add_frame m by (simp add: paths)
qed

lemma first_add_inv:
  "producer_inv (snd (add h (new_producer :: ('h, 'p) producer)))"
  "p_seq (snd (add h (new_producer :: ('h, 'p) producer))) = 0"
  "emitted_events (p_sent (snd (add h (new_producer :: ('h, 'p) producer)))) = []"
  by (simp_all add: producer_inv_def min_acked_def add_def find_path_def new_producer_def Let_def)

lemma run_producer_inv:
  assumes "producer_inv p" "acks_monotone calls p"
    "unat (p_seq p) + length (produced_payloads calls) < 2 ^ 64"
  shows "producer_inv (run_producer calls p)
    \<and> unat (p_seq (run_producer calls p)) = unat (p_seq p) + length (produced_payloads calls)
    \<and> map content (emitted_events (p_sent (run_producer calls p)))
        = map content (emitted_events (p_sent p)) @ produced_payloads calls"
  using assms
proof (induction calls arbitrary: p)
  case Nil
  then show ?case by (simp add: run_producer_def)
next
  case (Cons c calls)
  show ?case
  proof (cases c)
    case (Add h)
    have inv: "producer_inv (snd (add h p))" using Cons.prems(1) by (rule add_inv)
    from Cons.IH [OF inv] Cons.prems(2,3) Add
    show ?thesis by (simp add: run_producer_def add_frame)
  next
    case (Produce x)
    have ne: "p_seq p \<noteq> - 1"
    proof
      assume "p_seq p = - 1"
      then have "unat (p_seq p) = 2 ^ 64 - 1" by (simp add: unsigned_minus_1_eq_mask mask_eq_exp_minus_1)
      with Cons.prems(3) Produce show False by simp
    qed
    have inv: "producer_inv (produce x p)" using Cons.prems(1) ne by (rule produce_inv)
    have n: "unat (p_seq (produce x p)) = Suc (unat (p_seq p))"
      using unat_succ [OF ne] by (simp add: produce_def Let_def)
    have e: "map content (emitted_events (p_sent (produce x p)))
               = map content (emitted_events (p_sent p)) @ [x]"
      by (simp add: produce_def Let_def emitted_events_append)
    from Cons.IH [OF inv, unfolded n e] Cons.prems(2,3) Produce
    show ?thesis by (simp add: run_producer_def)
  next
    case (Handle_ack h s)
    from Cons.prems(2) Handle_ack
    have le: "s \<le> p_seq p" and mono: "\<forall>x \<in> set (p_paths p). hdl x = h \<longrightarrow> acked x \<le> s"
      and rest: "acks_monotone calls (handle_ack h s p)"
      by (simp_all add: list_all_iff)
    have inv: "producer_inv (handle_ack h s p)"
      using Cons.prems(1) le mono by (rule handle_ack_inv)
    from Cons.IH [OF inv rest] Cons.prems(3) Handle_ack
    show ?thesis by (simp add: run_producer_def)
  qed
qed

text \<open>
  Claim C1, as amended. Take a new producer whose first call is \<open>add\<close>, so that it has a path
  before anything is produced, followed by any sequence of \<open>add\<close>, \<open>produce\<close> and
  \<open>handle_ack\<close> calls in which every acknowledged value is at most the producer's current
  sequence number and not below the value already stored for that handle, with fewer than
  \<open>2^64\<close> \<open>produce\<close> calls (no wrap-around). Then the events handed out are numbered
  1, 2, 3, \<dots> in steps of one, strictly increasing, they carry the payloads in the order
  produced, and the retransmission buffer holds exactly the events whose sequence number
  is greater than the minimum acknowledged value over all paths.
\<close>

theorem producer_buffer_exact:
  assumes "acks_monotone (Add h # calls) new_producer"
    and "length (produced_payloads calls) < 2 ^ 64"
  shows "map seq (emitted_events (p_sent (run_producer (Add h # calls) new_producer)))
           = map (\<lambda>i. of_nat (Suc i)) [0 ..< length (produced_payloads calls)]
    \<and> sorted_wrt (<) (map seq (emitted_events (p_sent (run_producer (Add h # calls) new_producer))))
    \<and> map content (emitted_events (p_sent (run_producer (Add h # calls) new_producer)))
           = produced_payloads calls
    \<and> buffer_exact (run_producer (Add h # calls) new_producer)"
proof -
  let ?p1 = "snd (add h (new_producer :: ('a, 'b) producer))"
  have run: "run_producer (Add h # calls) new_producer = run_producer calls ?p1"
    by (simp add: run_producer_def)
  have mono: "acks_monotone calls ?p1" using assms(1) by simp
  from run_producer_inv [OF first_add_inv(1) mono] assms(2) first_add_inv(2,3) [of h, where ?'p = 'b]
  have inv: "producer_inv (run_producer calls ?p1)"
    and n: "unat (p_seq (run_producer calls ?p1)) = length (produced_payloads calls)"
    and c: "map content (emitted_events (p_sent (run_producer calls ?p1))) = produced_payloads calls"
    by simp_all
  from inv n c producer_inv_sorted [OF inv] show ?thesis
    unfolding run by (simp add: producer_inv_def buffer_exact_def)
qed

theorem producer_buffer_exact_witness:
  "acks_monotone [Add 7, Produce ''a'', Add 8, Produce ''b'', Handle_ack 7 1, Produce ''c'',
                  Handle_ack 8 2, Handle_ack (7 :: nat) 3] new_producer
   \<and> run_producer [Add 7, Produce ''a'', Add 8, Produce ''b'', Handle_ack 7 1, Produce ''c'',
                  Handle_ack 8 2, Handle_ack (7 :: nat) 3] new_producer
       = \<lparr>p_seq = 3, p_buf = [\<lparr>seq = 3, content = ''c''\<rparr>],
          p_paths = [\<lparr>hdl = 7, offset = 1, acked = 3\<rparr>, \<lparr>hdl = 8, offset = 2, acked = 2\<rparr>],
          p_sent = [To_consumer 7 (Handshake 1),
                    Fan_out [\<lparr>hdl = 7, offset = 1, acked = 0\<rparr>] \<lparr>seq = 1, content = ''a''\<rparr>,
                    To_consumer 8 (Handshake 2),
                    Fan_out [\<lparr>hdl = 7, offset = 1, acked = 0\<rparr>, \<lparr>hdl = 8, offset = 2, acked = 1\<rparr>]
                      \<lparr>seq = 2, content = ''b''\<rparr>,
                    Fan_out [\<lparr>hdl = 7, offset = 1, acked = 1\<rparr>, \<lparr>hdl = 8, offset = 2, acked = 1\<rparr>]
                      \<lparr>seq = 3, content = ''c''\<rparr>]\<rparr>
   \<and> buffer_exact (run_producer [Add 7, Produce ''a'', Add 8, Produce ''b'', Handle_ack 7 1,
                  Produce ''c'', Handle_ack 8 2, Handle_ack (7 :: nat) 3] new_producer)"
proof -
  let ?calls = "[Produce ''a'', Add 8, Produce ''b'', Handle_ack 7 1, Produce ''c'',
                 Handle_ack 8 2, Handle_ack (7 :: nat) 3]"
  have h1: "acks_monotone (Add 7 # ?calls) new_producer"
    by (simp add: new_producer_def add_def find_path_def produce_def handle_ack_def Let_def)
  have h2: "length (produced_payloads ?calls) < 2 ^ 64" by simp
  have r: "run_producer (Add 7 # ?calls) new_producer
       = \<lparr>p_seq = 3, p_buf = [\<lparr>seq = 3, content = ''c''\<rparr>],
          p_paths = [\<lparr>hdl = 7, offset = 1, acked = 3\<rparr>, \<lparr>hdl = 8, offset = 2, acked = 2\<rparr>],
          p_sent = [To_consumer 7 (Handshake 1),
                    Fan_out [\<lparr>hdl = 7, offset = 1, acked = 0\<rparr>] \<lparr>seq = 1, content = ''a''\<rparr>,
                    To_consumer 8 (Handshake 2),
                    Fan_out [\<lparr>hdl = 7, offset = 1, acked = 0\<rparr>, \<lparr>hdl = 8, offset = 2, acked = 1\<rparr>]
                      \<lparr>seq = 2, content = ''b''\<rparr>,
                    Fan_out [\<lparr>hdl = 7, offset = 1, acked = 1\<rparr>, \<lparr>hdl = 8, offset = 2, acked = 1\<rparr>]
                      \<lparr>seq = 3, content = ''c''\<rparr>]\<rparr>"
    by (simp add: run_producer_def new_producer_def add_def find_path_def
        produce_def handle_ack_def Let_def)
  from producer_buffer_exact [OF h1 h2] h1 r show ?thesis by simp
qed

text \<open>
  Claim C1 as stated only bounds each acknowledged value by the current sequence number.
  That admits an acknowledgement below an earlier one of the same consumer: after
  \<open>handle_ack 1 2\<close> emptied the buffer, \<open>handle_ack 1 1\<close> sets the minimum back to 1, and
  event 2 lies above the minimum but is no longer buffered. It also speaks of every
  producer: one that produced event 1 before its first consumer was added has that
  consumer's path at 1 and event 1 still buffered.
\<close>

theorem producer_buffer_counterexample:
  "acks_bounded [Produce ''a'', Produce ''b'', Handle_ack 1 2, Handle_ack 1 1]
       (producer_with [1 :: nat])
   \<and> p_buf (run_producer [Produce ''a'', Produce ''b'', Handle_ack 1 2, Handle_ack 1 1]
       (producer_with [1 :: nat])) = []
   \<and> min_acked (p_paths (run_producer [Produce ''a'', Produce ''b'', Handle_ack 1 2,
       Handle_ack 1 1] (producer_with [1 :: nat]))) = 1
   \<and> emitted_events (p_sent (run_producer [Produce ''a'', Produce ''b'', Handle_ack 1 2,
       Handle_ack 1 1] (producer_with [1 :: nat])))
       = [\<lparr>seq = 1, content = ''a''\<rparr>, \<lparr>seq = 2, content = ''b''\<rparr>]
   \<and> \<not> buffer_exact (run_producer [Produce ''a'', Produce ''b'', Handle_ack 1 2, Handle_ack 1 1]
       (producer_with [1 :: nat]))
   \<and> p_buf (run_producer [Produce ''a'', Add (1 :: nat)] new_producer)
       = [\<lparr>seq = 1, content = ''a''\<rparr>]
   \<and> min_acked (p_paths (run_producer [Produce ''a'', Add (1 :: nat)] new_producer)) = 1
   \<and> \<not> buffer_exact (run_producer [Produce ''a'', Add (1 :: nat)] new_producer)"
  by (simp add: buffer_exact_def min_acked_def run_producer_def producer_with_def new_producer_def
      add_def find_path_def produce_def handle_ack_def Let_def)

lemma find_path_registered: "find_path h p \<noteq> None \<longleftrightarrow> (\<exists>x \<in> set (p_paths p). hdl x = h)"
  by (auto simp add: find_path_def find_None_iff)

lemma dropWhile_cong_set:
  "(\<And>x. x \<in> set xs \<Longrightarrow> P x = Q x) \<Longrightarrow> dropWhile P xs = dropWhile Q xs"
  by (induction xs) simp_all

text \<open>
  Claim C4, as amended. For a producer with a registered path for the handle, whose buffered
  events all have sequence numbers up to the current one, \<open>handle_ack\<close> with a value above
  the current sequence number prunes the buffer exactly as \<open>handle_ack\<close> with the current
  sequence number does and leaves the other paths alone; but it stores the value as it is in
  the paths of the handle, so the producer is not idle afterwards.
\<close>

theorem handle_ack_beyond_head:
  assumes "find_path h p \<noteq> None"
    and "p_seq p < s"
    and "\<forall>e \<in> set (p_buf p). seq e \<le> p_seq p"
  shows "p_buf (handle_ack h s p) = p_buf (handle_ack h (p_seq p) p)
    \<and> p_paths (handle_ack h s p)
        = map (\<lambda>x. if hdl x = h then x\<lparr>acked := s\<rparr> else x) (p_paths p)
    \<and> p_paths (handle_ack h (p_seq p) p)
        = map (\<lambda>x. if hdl x = h then x\<lparr>acked := p_seq p\<rparr> else x) (p_paths p)
    \<and> \<not> idle (handle_ack h s p)
    \<and> p_seq (handle_ack h s p) = p_seq p
    \<and> p_sent (handle_ack h s p) = p_sent p"
proof -
  let ?others = "acked ` {x \<in> set (p_paths p). hdl x \<noteq> h}"
  have same: "(seq e \<le> Min (insert s ?others)) = (seq e \<le> Min (insert (p_seq p) ?others))"
    if "e \<in> set (p_buf p)" for e
  proof -
    from that assms(3) have "seq e \<le> p_seq p" by simp
    moreover from this assms(2) have "seq e \<le> s" by simp
    ultimately show ?thesis by simp
  qed
  have buf: "p_buf (handle_ack h s p) = p_buf (handle_ack h (p_seq p) p)"
    unfolding handle_ack_buf using same by (rule dropWhile_cong_set)
  from assms(1) [unfolded find_path_registered] obtain x
    where x: "x \<in> set (p_paths p)" "hdl x = h"
    by blast
  then have "x\<lparr>acked := s\<rparr> \<in> set (p_paths (handle_ack h s p))"
    unfolding handle_ack_paths by force
  moreover have "acked (x\<lparr>acked := s\<rparr>) \<noteq> p_seq (handle_ack h s p)"
    using assms(2) by auto
  ultimately have "\<not> idle (handle_ack h s p)"
    unfolding idle_def list_all_iff by blast
  with buf show ?thesis by (simp add: handle_ack_paths)
qed

theorem handle_ack_beyond_head_witness:
  "p_buf (handle_ack 7 9 (run_producer [Produce ''a'', Produce ''b''] (producer_with [7 :: nat, 8])))
     = p_buf (handle_ack 7 2 (run_producer [Produce ''a'', Produce ''b''] (producer_with [7 :: nat, 8])))
   \<and> \<not> idle (handle_ack 7 9 (run_producer [Produce ''a'', Produce ''b''] (producer_with [7 :: nat, 8])))"
proof -
  let ?p = "run_producer [Produce ''a'', Produce ''b''] (producer_with [7 :: nat, 8])"
  have seq: "p_seq ?p = 2"
    by (simp add: run_producer_def producer_with_def new_producer_def add_def find_path_def
        produce_def Let_def)
  have h1: "find_path 7 ?p \<noteq> None"
    by (simp add: run_producer_def producer_with_def new_producer_def add_def find_path_def
        produce_def Let_def)
  have h2: "p_seq ?p < 9" by (simp add: seq)
  have h3: "\<forall>e \<in> set (p_buf ?p). seq e \<le> p_seq ?p"
    by (simp add: run_producer_def producer_with_def new_producer_def add_def find_path_def
        produce_def Let_def)
  from handle_ack_beyond_head [OF h1 h2 h3] show ?thesis by (simp add: seq)
qed

text \<open>
  Claim C4 as stated: the same effect on the path values and on \<open>idle\<close>. With one consumer
  and nothing produced yet, \<open>handle_ack 1 5\<close> stores 5 and leaves the producer not idle, while
  \<open>handle_ack 1 0\<close> (the current sequence number) stores 0 and leaves it idle.
\<close>

theorem handle_ack_beyond_head_counterexample:
  "find_path 1 (producer_with [1 :: nat] :: (nat, string) producer) \<noteq> None
   \<and> p_seq (producer_with [1 :: nat] :: (nat, string) producer) = 0
   \<and> p_paths (handle_ack 1 5 (producer_with [1 :: nat] :: (nat, string) producer))
       = [\<lparr>hdl = 1, offset = 1, acked = 5\<rparr>]
   \<and> p_paths (handle_ack 1 0 (producer_with [1 :: nat] :: (nat, string) producer))
       = [\<lparr>hdl = 1, offset = 1, acked = 0\<rparr>]
   \<and> \<not> idle (handle_ack 1 5 (producer_with [1 :: nat] :: (nat, string) producer))
   \<and> idle (handle_ack 1 0 (producer_with [1 :: nat] :: (nat, string) producer))"
  by (simp add: idle_def producer_with_def new_producer_def add_def find_path_def
      handle_ack_def Let_def)

lemma find_Some_holds: "find P xs = Some x \<Longrightarrow> P x \<and> x \<in> set xs"
  by (induction xs) (auto split: if_splits)

lemma resend_frame [simp]:
  "p_buf (resend h s p) = p_buf p" "p_seq (resend h s p) = p_seq p"
  "p_paths (resend h s p) = p_paths p"
  by (simp_all add: resend_def split: option.splits)

lemma find_event_resend [simp]: "find_event s' (resend h s p) = find_event s' p"
  by (simp add: find_event_def)

lemma resend_eq: "resend h s p = p\<lparr>p_sent := p_sent p @ [resend_msg p h s]\<rparr>"
  by (simp add: resend_def resend_msg_def split: option.splits)

lemma resend_msg_resend [simp]: "resend_msg (resend h s p) h' s' = resend_msg p h' s'"
  by (simp add: resend_msg_def)

lemma fold_resend:
  "fold (resend h) ss p = p\<lparr>p_sent := p_sent p @ map (resend_msg p h) ss\<rparr>"
proof (induction ss arbitrary: p)
  case Nil
  then show ?case by simp
next
  case (Cons s ss)
  have "map (resend_msg (resend h s p) h) ss = map (resend_msg p h) ss" by simp
  with Cons.IH [of "resend h s p"] show ?case by (simp add: resend_eq)
qed

lemma min_acked_after_ack:
  assumes "\<exists>x \<in> set ps. hdl x = h"
  shows "min_acked (map (\<lambda>x. if hdl x = h then x\<lparr>acked := s\<rparr> else x) ps)
           = Min (insert s (acked ` {x \<in> set ps. hdl x \<noteq> h}))"
proof -
  have "acked ` set (map (\<lambda>x. if hdl x = h then x\<lparr>acked := s\<rparr> else x) ps)
          = insert s (acked ` {x \<in> set ps. hdl x \<noteq> h})"
    using assms acked_image_update [of h s ps] by simp
  then show ?thesis by (simp only: min_acked_def set_map [of acked])
qed

lemma handle_ack_registered:
  assumes "find_path h p \<noteq> None"
  shows "handle_ack h s p
           = p\<lparr>p_paths := map (\<lambda>x. if hdl x = h then x\<lparr>acked := s\<rparr> else x) (p_paths p),
                p_buf := dropWhile
                  (\<lambda>x. seq x \<le> min_acked (map (\<lambda>x. if hdl x = h then x\<lparr>acked := s\<rparr> else x) (p_paths p)))
                  (p_buf p)\<rparr>"
proof -
  from assms have "\<exists>x \<in> set (p_paths p). hdl x = h" unfolding find_path_registered .
  from min_acked_after_ack [OF this, of s]
  show ?thesis
    by (simp add: handle_ack_def case_prod_beta Let_def not_less ack_paths_fst ack_paths_snd
        del: Min_insert Min_le_iff Min_ge_iff)
qed

text \<open>
  Claim C5. For a producer with a registered path for the handle and a non-empty list of
  sequence numbers (sorted or not): if the list starts with 0, \<open>handle_nack\<close> sends that
  consumer \<open>handshake{offset}\<close> with the offset of its path and changes nothing else.
  Otherwise it first applies the implicit acknowledgement of the first number minus one:
  the paths of the handle store that value, and the buffer loses its leading events up to
  the minimum acknowledged value over all paths. Then, for each requested number in order,
  that consumer is sent the event of that number from the pruned buffer, or
  \<open>retransmit_failed\<close> of the number when the pruned buffer has no such event. The
  sequence counter stays and nothing else is sent.
\<close>

theorem handle_nack_effect:
  assumes "find_path h p = Some pa"
    and "seqs \<noteq> []"
  shows "(hd seqs = 0 \<longrightarrow>
            handle_nack h seqs p = p\<lparr>p_sent := p_sent p @ [To_consumer h (Handshake (offset pa))]\<rparr>)
    \<and> (hd seqs \<noteq> 0 \<longrightarrow>
          p_seq (handle_nack h seqs p) = p_seq p
          \<and> p_paths (handle_nack h seqs p)
              = map (\<lambda>x. if hdl x = h then x\<lparr>acked := hd seqs - 1\<rparr> else x) (p_paths p)
          \<and> p_buf (handle_nack h seqs p)
              = dropWhile (\<lambda>x. seq x \<le> min_acked (p_paths (handle_nack h seqs p))) (p_buf p)
          \<and> p_sent (handle_nack h seqs p)
              = p_sent p @ map (\<lambda>s. To_consumer h
                                  (case find (\<lambda>x. seq x = s) (p_buf (handle_nack h seqs p)) of
                                     Some e \<Rightarrow> Event e
                                   | None \<Rightarrow> Retransmit_failed s)) seqs
          \<and> (\<forall>s e. find (\<lambda>x. seq x = s) (p_buf (handle_nack h seqs p)) = Some e
                 \<longrightarrow> e \<in> set (p_buf (handle_nack h seqs p)) \<and> seq e = s)
          \<and> (\<forall>s. find (\<lambda>x. seq x = s) (p_buf (handle_nack h seqs p)) = None
                 \<longleftrightarrow> (\<forall>e \<in> set (p_buf (handle_nack h seqs p)). seq e \<noteq> s)))"
proof -
  from assms(2) obtain first rest where seqs: "seqs = first # rest" by (cases seqs) auto
  have reg: "find_path h p \<noteq> None" using assms(1) by simp
  let ?ps = "map (\<lambda>x. if hdl x = h then x\<lparr>acked := first - 1\<rparr> else x) (p_paths p)"
  let ?buf = "dropWhile (\<lambda>x. seq x \<le> min_acked ?ps) (p_buf p)"
  have a: "hd seqs = 0 \<longrightarrow>
            handle_nack h seqs p = p\<lparr>p_sent := p_sent p @ [To_consumer h (Handshake (offset pa))]\<rparr>"
    using assms(1) by (simp add: handle_nack_def seqs)
  have n: "handle_nack h seqs p
             = p\<lparr>p_paths := ?ps, p_buf := ?buf,
                  p_sent := p_sent p @ map (\<lambda>s. To_consumer h
                                  (case find (\<lambda>x. seq x = s) ?buf of
                                     Some e \<Rightarrow> Event e
                                   | None \<Rightarrow> Retransmit_failed s)) seqs\<rparr>"
    if "first \<noteq> 0"
  proof -
    have "handle_nack h seqs p = fold (resend h) seqs (handle_ack h (first - 1) p)"
      using assms(1) that unfolding handle_nack_def seqs by simp
    also have "\<dots> = (handle_ack h (first - 1) p)
                      \<lparr>p_sent := p_sent (handle_ack h (first - 1) p)
                                  @ map (resend_msg (handle_ack h (first - 1) p) h) seqs\<rparr>"
      by (rule fold_resend)
    finally show ?thesis
      unfolding handle_ack_registered [OF reg]
      by (simp add: resend_msg_def find_event_def)
  qed
  have b: "p_seq (handle_nack h seqs p) = p_seq p
          \<and> p_paths (handle_nack h seqs p)
              = map (\<lambda>x. if hdl x = h then x\<lparr>acked := hd seqs - 1\<rparr> else x) (p_paths p)
          \<and> p_buf (handle_nack h seqs p)
              = dropWhile (\<lambda>x. seq x \<le> min_acked (p_paths (handle_nack h seqs p))) (p_buf p)
          \<and> p_sent (handle_nack h seqs p)
              = p_sent p @ map (\<lambda>s. To_consumer h
                                  (case find (\<lambda>x. seq x = s) (p_buf (handle_nack h seqs p)) of
                                     Some e \<Rightarrow> Event e
                                   | None \<Rightarrow> Retransmit_failed s)) seqs"
    if "hd seqs \<noteq> 0"
  proof -
    from that have "first \<noteq> 0" by (simp add: seqs)
    from n [OF this] show ?thesis by (simp add: seqs)
  qed
  have c: "\<forall>s e. find (\<lambda>x. seq x = s) (p_buf (handle_nack h seqs p)) = Some e
                 \<longrightarrow> e \<in> set (p_buf (handle_nack h seqs p)) \<and> seq e = s"
    using find_Some_holds [where P = "\<lambda>x. seq x = s" for s] by blast
  have d: "\<forall>s. find (\<lambda>x. seq x = s) (p_buf (handle_nack h seqs p)) = None
                 \<longleftrightarrow> (\<forall>e \<in> set (p_buf (handle_nack h seqs p)). seq e \<noteq> s)"
    by (auto simp add: find_None_iff)
  from a b c d show ?thesis by blast
qed

theorem handle_nack_effect_witness:
  "handle_nack 7 [2, 3]
      (run_producer [Add 7, Add 8, Produce ''a'', Produce ''b'', Produce ''c'', Handle_ack 8 3]
         new_producer)
     = \<lparr>p_seq = 3, p_buf = [\<lparr>seq = 2, content = ''b''\<rparr>, \<lparr>seq = 3, content = ''c''\<rparr>],
        p_paths = [\<lparr>hdl = 7 :: nat, offset = 1, acked = 1\<rparr>, \<lparr>hdl = 8, offset = 1, acked = 3\<rparr>],
        p_sent = p_sent (run_producer [Add 7, Add 8, Produce ''a'', Produce ''b'', Produce ''c'',
                           Handle_ack 8 3] new_producer)
                 @ [To_consumer 7 (Event \<lparr>seq = 2, content = ''b''\<rparr>),
                    To_consumer 7 (Event \<lparr>seq = 3, content = ''c''\<rparr>)]\<rparr>
   \<and> p_buf (run_producer [Add 7, Add 8, Produce ''a'', Produce ''b'', Produce ''c'', Handle_ack 8 3]
         (new_producer :: (nat, string) producer))
     = [\<lparr>seq = 1, content = ''a''\<rparr>, \<lparr>seq = 2, content = ''b''\<rparr>, \<lparr>seq = 3, content = ''c''\<rparr>]
   \<and> p_sent (handle_nack 7 [2, 3]
        (run_producer [Add 7, Produce ''a'', Produce ''b'', Produce ''c'', Handle_ack 7 2]
           new_producer))
     = p_sent (run_producer [Add 7, Produce ''a'', Produce ''b'', Produce ''c'', Handle_ack (7 :: nat) 2]
           new_producer)
       @ [To_consumer 7 (Retransmit_failed 2), To_consumer 7 (Event \<lparr>seq = 3, content = ''c''\<rparr>)]
   \<and> handle_nack 7 [0, 2] (producer_with [7 :: nat, 8] :: (nat, string) producer)
      = (producer_with [7 :: nat, 8])
          \<lparr>p_sent := p_sent (producer_with [7 :: nat, 8] :: (nat, string) producer)
                       @ [To_consumer 7 (Handshake 1)]\<rparr>"
proof -
  let ?p = "run_producer [Add 7, Add 8, Produce ''a'', Produce ''b'', Produce ''c'', Handle_ack 8 3]
              (new_producer :: (nat, string) producer)"
  let ?q = "producer_with [7 :: nat, 8] :: (nat, string) producer"
  let ?r = "run_producer [Add 7, Produce ''a'', Produce ''b'', Produce ''c'', Handle_ack 7 2]
              (new_producer :: (nat, string) producer)"
  have h1: "find_path 7 ?p = Some \<lparr>hdl = 7, offset = 1, acked = 0\<rparr>" by code_simp
  have h2: "[2, 3 :: u64] \<noteq> []" by simp
  have h3: "hd [2, 3 :: u64] \<noteq> 0" by simp
  have g1: "find_path 7 ?q = Some \<lparr>hdl = 7, offset = 1, acked = 0\<rparr>" by code_simp
  have g2: "[0, 2 :: u64] \<noteq> []" by simp
  have g3: "hd [0, 2 :: u64] = 0" by simp
  have e1: "handle_nack 7 [2, 3] ?p
     = \<lparr>p_seq = 3, p_buf = [\<lparr>seq = 2, content = ''b''\<rparr>, \<lparr>seq = 3, content = ''c''\<rparr>],
        p_paths = [\<lparr>hdl = 7 :: nat, offset = 1, acked = 1\<rparr>, \<lparr>hdl = 8, offset = 1, acked = 3\<rparr>],
        p_sent = p_sent ?p
                 @ [To_consumer 7 (Event \<lparr>seq = 2, content = ''b''\<rparr>),
                    To_consumer 7 (Event \<lparr>seq = 3, content = ''c''\<rparr>)]\<rparr>"
    by code_simp
  have e2: "p_sent (handle_nack 7 [2, 3] ?r)
     = p_sent ?r
       @ [To_consumer 7 (Retransmit_failed 2), To_consumer 7 (Event \<lparr>seq = 3, content = ''c''\<rparr>)]"
    by code_simp
  have pb: "p_buf ?p = [\<lparr>seq = 1, content = ''a''\<rparr>, \<lparr>seq = 2, content = ''b''\<rparr>,
                        \<lparr>seq = 3, content = ''c''\<rparr>]"
    by code_simp
  from handle_nack_effect [OF g1 g2, THEN conjunct1, THEN mp, OF g3]
  have e3: "handle_nack 7 [0, 2] ?q = ?q\<lparr>p_sent := p_sent ?q @ [To_consumer 7 (Handshake 1)]\<rparr>"
    by simp
  from handle_nack_effect [OF h1 h2, THEN conjunct2, THEN mp, OF h3]
  have "p_seq (handle_nack 7 [2, 3] ?p) = p_seq ?p" by (rule conjunct1)
  with e1 e2 pb e3 show ?thesis by (intro conjI)
qed

section \<open>Consumer\<close>

























lemma unat_succ64:
  fixes i :: u64
  assumes "i < j"
  shows "unat (i + 1) = Suc (unat i)"
proof -
  have "j \<le> - 1" by simp
  with assms have "i \<noteq> - 1" by auto
  then have "1 + i \<noteq> 0" by (simp add: add_eq_0_iff)
  then show ?thesis using unatSuc [of i] by (simp add: add.commute)
qed

lemma seq_range_Cons: "i < j \<Longrightarrow> seq_range i j = i # seq_range (i + 1) j"
  by (simp add: seq_range_def unat_succ64 upt_conv_Cons word_less_nat_alt)

lemma seq_range_empty: "\<not> i < j \<Longrightarrow> seq_range i j = []"
  by (simp add: seq_range_def word_less_nat_alt)

lemma count_up_eq: "count_up i j = seq_range i j"
proof (induction i j rule: count_up.induct)
  case (1 i found)
  show ?case
  proof (cases "i < found")
    case True
    with "1.IH" show ?thesis by (simp add: count_up.simps [of i found] seq_range_Cons)
  next
    case False
    then show ?thesis by (simp add: count_up.simps [of i found] seq_range_empty)
  qed
qed

lemma seq_range_append:
  "i \<le> j \<Longrightarrow> j \<le> k \<Longrightarrow> seq_range i k = seq_range i j @ seq_range j k"
proof -
  assume "i \<le> j" "j \<le> k"
  then have "unat i \<le> unat j" "unat j \<le> unat k" by (simp_all add: word_le_nat_alt)
  then obtain d where d: "unat k = unat j + d" using le_Suc_ex by blast
  have "[unat i ..< unat j + d] = [unat i ..< unat j] @ [unat j ..< unat j + d]"
    using \<open>unat i \<le> unat j\<close> by (rule upt_add_eq_append)
  then show ?thesis by (simp add: seq_range_def d)
qed

lemma set_seq_range: "set (seq_range i j) = {x. i \<le> x \<and> x < j}"
proof (intro set_eqI iffI)
  fix x assume "x \<in> set (seq_range i j)"
  then obtain n where n: "unat i \<le> n" "n < unat j" "x = of_nat n"
    by (auto simp add: seq_range_def)
  have "n < 2 ^ 64" using n(2) unsigned_less [of j, where 'a = nat] by simp
  then have "unat x = n" using n(3) by (simp add: unat_of_nat take_bit_nat_eq_self)
  with n show "x \<in> {x. i \<le> x \<and> x < j}" by (simp add: word_le_nat_alt word_less_nat_alt)
next
  fix x assume "x \<in> {x. i \<le> x \<and> x < j}"
  then have "unat i \<le> unat x" "unat x < unat j"
    by (simp_all add: word_le_nat_alt word_less_nat_alt)
  then have "unat x \<in> set [unat i ..< unat j]" by simp
  then have "(of_nat (unat x) :: u64) \<in> of_nat ` set [unat i ..< unat j]" by (rule imageI)
  then show "x \<in> set (seq_range i j)" by (simp add: seq_range_def)
qed

lemma missing_seqs_eq:
  "sorted_wrt (<) fs \<Longrightarrow> fs \<noteq> [] \<Longrightarrow> \<forall>f \<in> set fs. i \<le> f \<Longrightarrow>
     missing_seqs i fs = filter (\<lambda>s. s \<notin> set fs) (seq_range i (last fs))"
proof (induction fs arbitrary: i)
  case Nil
  then show ?case by simp
next
  case (Cons f fs)
  from Cons.prems(3) have le: "i \<le> f" by simp
  then have step: "(if i < f then f else i) = f" by auto
  have below: "filter (\<lambda>s. s \<notin> set (f # fs)) (seq_range i f) = seq_range i f"
  proof -
    have "s \<notin> set (f # fs)" if "s \<in> set (seq_range i f)" for s
      using that Cons.prems(1) by (auto simp add: set_seq_range)
    then show ?thesis by (simp add: filter_id_conv)
  qed
  show ?case
  proof (cases "fs = []")
    case True
    with below show ?thesis by (simp add: count_up_eq)
  next
    case False
    from Cons.prems(1) have s: "sorted_wrt (<) fs" and gt: "\<forall>x \<in> set fs. f < x" by simp_all
    from gt have ge: "\<forall>x \<in> set fs. f + 1 \<le> x" by (auto intro: inc_le)
    from False gt have fl: "f < last fs" by simp
    have ih: "missing_seqs (f + 1) fs = filter (\<lambda>s. s \<notin> set fs) (seq_range (f + 1) (last fs))"
      using s False ge by (rule Cons.IH)
    have "seq_range i (last fs) = seq_range i f @ seq_range f (last fs)"
      using le fl by (intro seq_range_append) simp_all
    also have "seq_range f (last fs) = f # seq_range (f + 1) (last fs)"
      using fl by (rule seq_range_Cons)
    finally have sp: "seq_range i (last fs) = seq_range i f @ f # seq_range (f + 1) (last fs)" .
    have above: "filter (\<lambda>s. s \<notin> set (f # fs)) (seq_range (f + 1) (last fs))
                   = filter (\<lambda>s. s \<notin> set fs) (seq_range (f + 1) (last fs))"
    proof (rule filter_cong [OF refl])
      fix s assume "s \<in> set (seq_range (f + 1) (last fs))"
      then have "f + 1 \<le> s" by (simp add: set_seq_range)
      moreover have "f < f + 1" using unat_succ64 [OF fl] by (simp add: word_less_nat_alt)
      ultimately have "s \<noteq> f" by auto
      then show "(s \<notin> set (f # fs)) = (s \<notin> set fs)" by simp
    qed
    from False have "last (f # fs) = last fs" by simp
    with sp below above ih step show ?thesis by (simp add: count_up_eq)
  qed
qed

text \<open>
  What \<open>tick\<close> computes where no buffered entry lies below \<open>next_seq\<close>: with no progress
  since the previous tick, a non-empty strictly ascending reorder buffer, an idle count
  that reaches the timeout with this tick and a \<open>reserve\<close> that is served, it sends a
  \<open>nack\<close> with the ascending list of the sequence numbers from \<open>next_seq\<close> up to but not
  including the last buffered one that are absent from the buffer, and resets the idle
  counter to zero.
\<close>

lemma tick_nack_without_stale_entry:
  assumes "\<not> next_seq c > last_tick_seq c"
    and "c_buf c \<noteq> []"
    and "idle_ticks c + 1 \<ge> nack_timeout c"
    and "sorted_wrt (<) (map seq (c_buf c))"
    and "\<forall>e \<in> set (c_buf c). next_seq c \<le> seq e"
    and "reserve al (unat (seq (last (c_buf c)) - next_seq c)) = None"
  shows "\<exists>c'. tick al c = Inr c'
    \<and> c_sent c' = c_sent c @ [Nack (missing_in_window c)]
    \<and> idle_ticks c' = 0
    \<and> next_seq c' = next_seq c \<and> c_buf c' = c_buf c \<and> consumed c' = consumed c"
proof -
  have "missing_seqs (next_seq c) (map seq (c_buf c))
          = filter (\<lambda>s. s \<notin> set (map seq (c_buf c)))
              (seq_range (next_seq c) (last (map seq (c_buf c))))"
    using assms(2,4,5) by (intro missing_seqs_eq) simp_all
  then have "missing_seqs (next_seq c) (map seq (c_buf c)) = missing_in_window c"
    using assms(2) by (simp add: missing_in_window_def last_map)
  with assms(1,2,3,6) show ?thesis
    by (simp add: tick_def Let_def)
qed

text \<open>
  Claim C6, at a failing input. A new producer registers consumer 7 and sends it the
  handshake with offset 1; it then produces the events 1, 2 and 3. The consumer receives
  event 1 before the handshake and buffers it; the handshake with offset 1 then sets
  \<open>next_seq\<close> to 2 and leaves event 1 in the buffer; event 3 is buffered behind it. The
  first \<open>tick\<close> sees progress. The second sees none, a non-empty buffer and the idle count
  at the timeout, and sends \<open>nack []\<close>: the stale entry 1 makes the counter of \<open>generate\<close>
  step over 2, the one number from \<open>next_seq\<close> up to but not including 3 that is absent
  from the buffer.
\<close>

theorem tick_nack_stale_entry:
  "p_sent (snd (add (7 :: nat) (new_producer :: (nat, string) producer)))
     = [To_consumer 7 (Handshake 1)]
   \<and> run_consumer roomy [Handle_event 1 ''a'', Handle_handshake 1, Handle_event 3 ''c'', Tick]
        new_consumer
     = \<lparr>next_seq = 2, c_buf = [\<lparr>seq = 1, content = ''a''\<rparr>, \<lparr>seq = 3, content = ''c''\<rparr>],
        tick_count = 1, last_tick_seq = 2, idle_ticks = 0, ack_interval = 1, nack_timeout = 1,
        consumed = [], c_sent = [Cumulative_ack 1]\<rparr>
   \<and> tick roomy
        \<lparr>next_seq = 2, c_buf = [\<lparr>seq = 1, content = ''a''\<rparr>, \<lparr>seq = 3, content = ''c''\<rparr>],
         tick_count = 1, last_tick_seq = 2, idle_ticks = 0, ack_interval = 1, nack_timeout = 1,
         consumed = [], c_sent = [Cumulative_ack 1]\<rparr>
     = Inr \<lparr>next_seq = 2, c_buf = [\<lparr>seq = 1, content = ''a''\<rparr>, \<lparr>seq = 3, content = ''c''\<rparr>],
            tick_count = 2, last_tick_seq = 2, idle_ticks = 0, ack_interval = 1, nack_timeout = 1,
            consumed = [], c_sent = [Cumulative_ack 1, Nack []]\<rparr>
   \<and> missing_in_window
        \<lparr>next_seq = 2, c_buf = [\<lparr>seq = 1, content = ''a''\<rparr>, \<lparr>seq = 3, content = ''c''\<rparr>],
         tick_count = 1, last_tick_seq = 2, idle_ticks = 0, ack_interval = 1, nack_timeout = 1,
         consumed = [], c_sent = [Cumulative_ack 1]\<rparr>
     = [2]"
  by code_simp

text \<open>
  Claim C7, at a failing input. A new producer registers consumer 7: it stores 0 as the
  acknowledged number of the path and sends the handshake with offset 1, the first
  sequence number the consumer should process and acknowledge. The new consumer processes
  that handshake, which sets \<open>next_seq\<close> to 2, and its next \<open>tick\<close> sends
  \<open>cumulative_ack 1\<close>, not 0, before any event was delivered. Event 1, which the producer
  sends next, is then discarded as stale.
\<close>

theorem first_ack_after_handshake:
  "add (7 :: nat) (new_producer :: (nat, string) producer)
     = (None, \<lparr>p_seq = 0, p_buf = [], p_paths = [\<lparr>hdl = 7, offset = 1, acked = 0\<rparr>],
               p_sent = [To_consumer 7 (Handshake 1)]\<rparr>)
   \<and> handle_handshake 1 (new_consumer :: string consumer)
     = \<lparr>next_seq = 2, c_buf = [], tick_count = 0, last_tick_seq = 0, idle_ticks = 0,
        ack_interval = 1, nack_timeout = 1, consumed = [], c_sent = []\<rparr>
   \<and> tick roomy
        \<lparr>next_seq = 2, c_buf = [], tick_count = 0, last_tick_seq = 0, idle_ticks = 0,
         ack_interval = 1, nack_timeout = 1, consumed = [], c_sent = []\<rparr>
     = Inr \<lparr>next_seq = 2, c_buf = [], tick_count = 1, last_tick_seq = 2, idle_ticks = 0,
            ack_interval = 1, nack_timeout = 1, consumed = ([] :: string event list),
            c_sent = [Cumulative_ack 1]\<rparr>
   \<and> handle_event 1 ''a''
        \<lparr>next_seq = 2, c_buf = [], tick_count = 1, last_tick_seq = 2, idle_ticks = 0,
         ack_interval = 1, nack_timeout = 1, consumed = [], c_sent = [Cumulative_ack 1]\<rparr>
     = \<lparr>next_seq = 2, c_buf = [], tick_count = 1, last_tick_seq = 2, idle_ticks = 0,
        ack_interval = 1, nack_timeout = 1, consumed = [], c_sent = [Cumulative_ack 1]\<rparr>"
  by code_simp
section \<open>Master\<close>

text \<open>
  Claim C3, as amended. For every master state and every \<open>put_unique\<close> command: if the key
  exists in the backend, the master replies \<open>(false, req_id)\<close> to the requester and nothing
  else changes (no broadcast, backend untouched). Otherwise it tries to put the key with
  the expiry counted from the clock. When the backend reports success, the master replies
  \<open>(true, req_id)\<close>, schedules the expiry reminder if there is an expiry, emits an insert
  event and broadcasts the operation to the clones as a plain \<open>put\<close> command. When the
  backend reports an error, the master replies \<open>(false, req_id)\<close>, emits no event and
  broadcasts nothing.
\<close>

theorem put_unique_effect:
  "(master_exists B key m \<longrightarrow>
      on_put_unique B now key val expiry publisher who req_id m
        = m\<lparr>sent := sent m @ [(who, Reply (D_bool False) req_id)]\<rparr>)
   \<and> (\<not> master_exists B key m \<longrightarrow>
        (\<forall>b'. b_put B key val (to_opt_timestamp now expiry) (backend m) = (None, b') \<longrightarrow>
           on_put_unique B now key val expiry publisher who req_id m
             = m\<lparr>backend := b',
                  sent := sent m @ [(who, Reply (D_bool True) req_id)],
                  reminders := reminders m @ (case expiry of Some e \<Rightarrow> [(e, key)] | None \<Rightarrow> []),
                  events := events m @ [Insert key val expiry publisher],
                  published := published m @ [Put_command key val expiry publisher]\<rparr>)
      \<and> (\<forall>err b'. b_put B key val (to_opt_timestamp now expiry) (backend m) = (Some err, b') \<longrightarrow>
           on_put_unique B now key val expiry publisher who req_id m
             = m\<lparr>backend := b', sent := sent m @ [(who, Reply (D_bool False) req_id)]\<rparr>))"
  by (auto simp add: on_put_unique_def send_to_def remind_opt_def remind_def emit_def
      broadcast_cmd_to_clones_def broadcast_def split: option.splits)

theorem put_unique_effect_witness:
  "on_put_unique memory_backend 100 (D_string ''k'') (D_count 2) (Some 50) (1, 2) 7 9
      (new_master [(D_string ''k'', D_count 1, None)])
     = (new_master [(D_string ''k'', D_count 1, None)])\<lparr>sent := [(7, Reply (D_bool False) 9)]\<rparr>
   \<and> on_put_unique memory_backend 100 (D_string ''k'') (D_count 2) (Some 50) (1, 2) 7 9
      (new_master [])
     = \<lparr>backend = [(D_string ''k'', D_count 2, Some 150)], clones = [], monitored = [],
        reminders = [(50, D_string ''k'')],
        events = [Insert (D_string ''k'') (D_count 2) (Some 50) (1, 2)],
        published = [Put_command (D_string ''k'') (D_count 2) (Some 50) (1, 2)],
        sent = [(7, Reply (D_bool True) 9)]\<rparr>"
proof -
  have e1: "master_exists memory_backend (D_string ''k'')
              (new_master [(D_string ''k'', D_count 1, None)])"
    by (simp add: master_exists_def memory_backend_def new_master_def)
  have e2: "\<not> master_exists memory_backend (D_string ''k'') (new_master [])"
    by (simp add: master_exists_def memory_backend_def new_master_def)
  have p: "b_put memory_backend (D_string ''k'') (D_count 2) (to_opt_timestamp 100 (Some 50))
             (backend (new_master []))
           = (None, [(D_string ''k'', D_count 2, Some 150)])"
    by (simp add: memory_backend_def new_master_def to_opt_timestamp_def)
  from put_unique_effect [of memory_backend "D_string ''k''"
      "new_master [(D_string ''k'', D_count 1, None)]" 100 "D_count 2" "Some 50" "(1, 2)" 7 9]
    put_unique_effect [of memory_backend "D_string ''k''" "new_master []" 100 "D_count 2"
      "Some 50" "(1, 2)" 7 9]
    e1 e2 p
  show ?thesis by (simp add: new_master_def)
qed

text \<open>
  Claim C3 as stated has the master reply \<open>(true, req_id)\<close>, emit an insert event and
  broadcast whenever the key does not exist. On a backend whose \<open>put\<close> fails the key does
  not exist, and the master replies \<open>(false, req_id)\<close>, emits nothing and broadcasts nothing.
\<close>

theorem put_unique_counterexample:
  "\<not> master_exists failing_backend (D_string ''k'') (new_master ())
   \<and> on_put_unique failing_backend 100 (D_string ''k'') (D_count 2) None (1, 2) 7 9 (new_master ())
      = \<lparr>backend = (), clones = [], monitored = [], reminders = [], events = [], published = [],
         sent = [(7, Reply (D_bool False) 9)]\<rparr>"
  by (simp add: master_exists_def failing_backend_def new_master_def on_put_unique_def
      send_to_def to_opt_timestamp_def)

text \<open>
  Claim C8, as amended. For every master state and every \<open>subtract\<close> command: if reading
  the key from the backend fails (the key is absent), the command is dropped and the master
  is unchanged (backend, events and broadcasts included). If the key exists and the
  backend's \<open>subtract\<close> succeeds, the master reads the value again; when that read
  succeeds, it schedules the expiry reminder if there is an expiry, emits an update event
  with the old and the new value, and broadcasts to the clones a plain \<open>put\<close> command that
  carries the new value and no expiry; when that read fails, it emits nothing and
  broadcasts nothing. When the backend's \<open>subtract\<close> fails, nothing is emitted or broadcast
  either.
\<close>

theorem subtract_effect:
  "(\<forall>err. b_get B (backend m) key = Inl err \<longrightarrow>
      on_subtract B now key val expiry publisher m = m)
   \<and> (\<forall>old b' new.
        b_get B (backend m) key = Inr old \<longrightarrow>
        b_subtract B key val (to_opt_timestamp now expiry) (backend m) = (None, b') \<longrightarrow>
        b_get B b' key = Inr new \<longrightarrow>
        on_subtract B now key val expiry publisher m
          = m\<lparr>backend := b',
               reminders := reminders m @ (case expiry of Some e \<Rightarrow> [(e, key)] | None \<Rightarrow> []),
               events := events m @ [Update key old new None publisher],
               published := published m @ [Put_command key new None publisher]\<rparr>)
   \<and> (\<forall>old b' err.
        b_get B (backend m) key = Inr old \<longrightarrow>
        b_subtract B key val (to_opt_timestamp now expiry) (backend m) = (Some err, b') \<longrightarrow>
        on_subtract B now key val expiry publisher m = m\<lparr>backend := b'\<rparr>)
   \<and> (\<forall>old b' err.
        b_get B (backend m) key = Inr old \<longrightarrow>
        b_subtract B key val (to_opt_timestamp now expiry) (backend m) = (None, b') \<longrightarrow>
        b_get B b' key = Inl err \<longrightarrow>
        on_subtract B now key val expiry publisher m = m\<lparr>backend := b'\<rparr>)"
  by (auto simp add: on_subtract_def remind_opt_def remind_def emit_def
      broadcast_cmd_to_clones_def broadcast_def split: option.splits)

theorem subtract_effect_witness:
  "on_subtract memory_backend 100 (D_string ''k'') (D_count 2) None (1, 2) (new_master [])
     = new_master []
   \<and> on_subtract memory_backend 100 (D_string ''k'') (D_count 2) None (1, 2)
        (new_master [(D_string ''k'', D_count 5, None)])
     = \<lparr>backend = [(D_string ''k'', D_count 3, None)], clones = [], monitored = [],
        reminders = [],
        events = [Update (D_string ''k'') (D_count 5) (D_count 3) None (1, 2)],
        published = [Put_command (D_string ''k'') (D_count 3) None (1, 2)],
        sent = []\<rparr>"
proof -
  have g0: "b_get memory_backend (backend (new_master [])) (D_string ''k'') = Inl No_such_key"
    by (simp add: memory_backend_def new_master_def)
  have g1: "b_get memory_backend (backend (new_master [(D_string ''k'', D_count 5, None)]))
              (D_string ''k'') = Inr (D_count 5)"
    by (simp add: memory_backend_def new_master_def)
  have s: "b_subtract memory_backend (D_string ''k'') (D_count 2) (to_opt_timestamp 100 None)
             (backend (new_master [(D_string ''k'', D_count 5, None)]))
           = (None, [(D_string ''k'', D_count 3, None)])"
    by (simp add: memory_backend_def new_master_def to_opt_timestamp_def)
  have g2: "b_get memory_backend [(D_string ''k'', D_count 3, None)] (D_string ''k'')
              = Inr (D_count 3)"
    by (simp add: memory_backend_def)
  from subtract_effect [of memory_backend "new_master []" "D_string ''k''" 100 "D_count 2"
      None "(1, 2)"]
    subtract_effect [of memory_backend "new_master [(D_string ''k'', D_count 5, None)]"
      "D_string ''k''" 100 "D_count 2" None "(1, 2)"]
    g0 g1 s g2
  show ?thesis by (simp add: new_master_def)
qed

text \<open>
  Claim C8 as stated has the master emit an update event and broadcast a \<open>put\<close> whenever
  the key exists and the backend's \<open>subtract\<close> succeeds. On a backend that cannot be read
  after the \<open>subtract\<close> the key exists, the \<open>subtract\<close> succeeds, and the master emits
  nothing and broadcasts nothing.
\<close>

theorem subtract_counterexample:
  "b_get fading_backend (backend (new_master True)) (D_string ''k'') = Inr (D_count 5)
   \<and> b_subtract fading_backend (D_string ''k'') (D_count 2) (to_opt_timestamp 100 None)
        (backend (new_master True)) = (None, False)
   \<and> on_subtract fading_backend 100 (D_string ''k'') (D_count 2) None (1, 2) (new_master True)
      = \<lparr>backend = False, clones = [], monitored = [], reminders = [], events = [],
         published = [], sent = []\<rparr>"
  by (simp add: fading_backend_def new_master_def on_subtract_def to_opt_timestamp_def)

text \<open>
  Claim C10. For every master state, an \<open>expire\<close> command, a \<open>snapshot_sync\<close> command or a
  \<open>set\<close> command leaves the master as it is: backend, clone registry, pending reminders,
  emitted events, broadcasts and sent messages are those from before the call.
\<close>

theorem clone_only_commands_ignored:
  "command B now (Expire_command key publisher) m = Inr m
   \<and> command B now (Snapshot_sync_command remote_clone) m = Inr m
   \<and> command B now (Set_command ss) m = Inr m"
  by simp
end
